theory Spec2Isabelle
  imports Main "HOL-Library.AList" "HOL-Library.Product_Lexorder"
begin

section \<open>Data model\<close>

text \<open>
  The \<open>Feature\<close> type is imported by the sources from the application store; only the
  fields the dependency utilities and the scheduler read are kept.  \<open>title\<close> and
  \<open>dependencies\<close> are optional properties in the source (\<open>depFeature?.title\<close>,
  \<open>feature.dependencies || []\<close>), hence options here.
\<close>

datatype FeatureStatus =
  backlog | in_progress | waiting_approval | completed | verified | failed | archived

record Feature =
  fid :: string
  title :: "string option"
  status :: FeatureStatus
  dependencies :: "string list option"
  priority :: nat
  createdAt :: nat

text \<open>
  The test helper \<open>createFeature(id, dependencies)\<close>: a backlog feature of priority 2
  without a title.  The creation time is the clock's; it is fixed to 0 here.
\<close>

definition createFeature :: "string \<Rightarrow> string list \<Rightarrow> Feature" where
  "createFeature i ds =
     \<lparr> fid = i, title = None, status = backlog, dependencies = Some ds,
       priority = 2, createdAt = 0 \<rparr>"

text \<open>\<open>feature.dependencies || []\<close>\<close>

definition depsOrEmpty :: "Feature \<Rightarrow> string list" where
  "depsOrEmpty feature = (case dependencies feature of None \<Rightarrow> [] | Some ds \<Rightarrow> ds)"

section \<open>Dependency validation (dependency-validation.ts)\<close>

text \<open>
  \<open>new Map<string, Feature>()\<close> filled by \<open>featureMap.set(feature.id, feature)\<close> for each
  feature in order: an association list in which a repeated key keeps its position and
  takes the later value.
\<close>

definition buildFeatureMap :: "Feature list \<Rightarrow> (string \<times> Feature) list" where
  "buildFeatureMap allFeatures = foldl (\<lambda>m feature. AList.update (fid feature) feature m) [] allFeatures"

text \<open>
  \<open>hasPathBetweenFeatures\<close>: the recursive call receives a copy of the visited set
  (\<open>new Set(visited)\<close>) and no additional dependencies.
\<close>

function hasPathBetweenFeatures ::
  "string \<Rightarrow> string \<Rightarrow> (string \<times> Feature) list \<Rightarrow> string list \<Rightarrow> string set \<Rightarrow> bool" where
  "hasPathBetweenFeatures startFeatureId targetFeatureId featureMap additionalDependencies visited =
     (if startFeatureId \<in> visited then False
      else (case map_of featureMap startFeatureId of
              None \<Rightarrow> False
            | Some feature \<Rightarrow>
                (if targetFeatureId \<in> set (depsOrEmpty feature @ additionalDependencies) then True
                 else list_ex (\<lambda>depId. hasPathBetweenFeatures depId targetFeatureId featureMap []
                                          (insert startFeatureId visited))
                        (depsOrEmpty feature @ additionalDependencies))))"
  by pat_completeness auto
termination
proof (relation "measure (\<lambda>(s, t, fm, add, visited). card (dom (map_of fm) - visited))")
  show "wf (measure (\<lambda>(s, t, fm, add, visited). card (dom (map_of fm) - visited)))"
    by simp
next
  fix startFeatureId targetFeatureId :: string
  fix featureMap :: "(string \<times> Feature) list"
  fix additionalDependencies :: "string list"
  fix visited :: "string set"
  fix x2 z
  assume nv: "startFeatureId \<notin> visited"
    and look: "map_of featureMap startFeatureId = Some x2"
  have fin: "finite (dom (map_of featureMap) - visited)"
    by (simp add: finite_dom_map_of)
  have mem: "startFeatureId \<in> dom (map_of featureMap) - visited"
    using nv look by auto
  have eq: "dom (map_of featureMap) - insert startFeatureId visited
        = (dom (map_of featureMap) - visited) - {startFeatureId}"
    by auto
  have "card ((dom (map_of featureMap) - visited) - {startFeatureId})
        < card (dom (map_of featureMap) - visited)"
    using fin mem by (rule card_Diff1_less)
  then have "card (dom (map_of featureMap) - insert startFeatureId visited)
        < card (dom (map_of featureMap) - visited)"
    by (simp only: eq)
  then show "((z, targetFeatureId, featureMap, [], insert startFeatureId visited),
              startFeatureId, targetFeatureId, featureMap, additionalDependencies, visited)
             \<in> measure (\<lambda>(s, t, fm, add, visited). card (dom (map_of fm) - visited))"
    by simp
qed

declare hasPathBetweenFeatures.simps [simp del]

text \<open>
  The same traversal with its nesting depth counted: \<open>hasPathDepth n\<close> follows
  \<open>hasPathBetweenFeatures\<close> line by line and answers \<open>None\<close> where a call would nest
  deeper than \<open>n\<close>.  \<open>firstTrue\<close> is the \<open>for\<close> loop that returns at the first
  recursive call answering \<open>true\<close>.
\<close>

fun firstTrue :: "bool option list \<Rightarrow> bool option" where
  "firstTrue [] = Some False"
| "firstTrue (None # rs) = None"
| "firstTrue (Some True # rs) = Some True"
| "firstTrue (Some False # rs) = firstTrue rs"

fun hasPathDepth ::
  "nat \<Rightarrow> string \<Rightarrow> string \<Rightarrow> (string \<times> Feature) list \<Rightarrow> string list \<Rightarrow> string set \<Rightarrow> bool option" where
  "hasPathDepth 0 startFeatureId targetFeatureId featureMap additionalDependencies visited = None"
| "hasPathDepth (Suc n) startFeatureId targetFeatureId featureMap additionalDependencies visited =
     (if startFeatureId \<in> visited then Some False
      else (case map_of featureMap startFeatureId of
              None \<Rightarrow> Some False
            | Some feature \<Rightarrow>
                (if targetFeatureId \<in> set (depsOrEmpty feature @ additionalDependencies) then Some True
                 else firstTrue (map (\<lambda>depId. hasPathDepth n depId targetFeatureId featureMap []
                                          (insert startFeatureId visited))
                        (depsOrEmpty feature @ additionalDependencies)))))"

definition wouldCreateCircularDependency ::
  "string \<Rightarrow> string \<Rightarrow> Feature list \<Rightarrow> string list \<Rightarrow> bool" where
  "wouldCreateCircularDependency currentFeatureId newDependencyId allFeatures existingDependencies =
     (if currentFeatureId = newDependencyId then True
      else hasPathBetweenFeatures newDependencyId currentFeatureId (buildFeatureMap allFeatures)
             existingDependencies {})"

record ValidationResult =
  valid :: bool
  errors :: "string list"

definition selfDependencyError :: string where
  "selfDependencyError = ''A feature cannot depend on itself''"

definition duplicateError :: string where
  "duplicateError = ''Duplicate dependencies are not allowed''"

text \<open>\<open>depFeature?.title || `Feature ${depId.slice(0, 8)}...`\<close>: an absent or empty title
  falls back to the shortened id.\<close>

definition depTitle :: "Feature list \<Rightarrow> string \<Rightarrow> string" where
  "depTitle allFeatures depId =
     (case find (\<lambda>f. fid f = depId) allFeatures of
        None \<Rightarrow> ''Feature '' @ take 8 depId @ ''...''
      | Some depFeature \<Rightarrow>
          (case title depFeature of
             None \<Rightarrow> ''Feature '' @ take 8 depId @ ''...''
           | Some t \<Rightarrow> if t = [] then ''Feature '' @ take 8 depId @ ''...'' else t))"

definition circularError :: "Feature list \<Rightarrow> string \<Rightarrow> string" where
  "circularError allFeatures depId =
     ''Adding dependency \"'' @ depTitle allFeatures depId @ ''\" would create a circular dependency''"

text \<open>The loop over \<open>dependencies\<close> that pushes one message per offending entry.\<close>

fun circularErrors :: "string \<Rightarrow> string list \<Rightarrow> Feature list \<Rightarrow> string list \<Rightarrow> string list" where
  "circularErrors currentFeatureId deps allFeatures [] = []"
| "circularErrors currentFeatureId deps allFeatures (depId # rest) =
     (if depId = currentFeatureId then circularErrors currentFeatureId deps allFeatures rest
      else if wouldCreateCircularDependency currentFeatureId depId allFeatures
                (filter (\<lambda>i. i \<noteq> depId) deps)
           then circularError allFeatures depId # circularErrors currentFeatureId deps allFeatures rest
           else circularErrors currentFeatureId deps allFeatures rest)"

definition validateDependencies :: "string \<Rightarrow> string list \<Rightarrow> Feature list \<Rightarrow> ValidationResult" where
  "validateDependencies currentFeatureId deps allFeatures =
     (let errs = (if currentFeatureId \<in> set deps then [selfDependencyError] else [])
               @ (if card (set deps) \<noteq> length deps then [duplicateError] else [])
               @ circularErrors currentFeatureId deps allFeatures deps
      in \<lparr> valid = (length errs = 0), errors = errs \<rparr>)"


text \<open>
  \<open>getAllDependencies\<close>: the inner function \<open>collectDependencies\<close> shares the two sets
  \<open>visited\<close> and \<open>allDeps\<close> across all its calls, so they are threaded through as a pair.
  \<open>allDeps\<close> is kept in insertion order, as \<open>Array.from(allDeps)\<close> returns it.  The
  \<open>for\<close> loop over \<open>feature.dependencies\<close> is \<open>collectDependenciesLoop\<close>.
\<close>

function collectDependencies ::
    "(string \<times> Feature) list \<Rightarrow> string \<Rightarrow> string set \<times> string list \<Rightarrow> string set \<times> string list"
  and collectDependenciesLoop ::
    "(string \<times> Feature) list \<Rightarrow> string list \<Rightarrow> string set \<times> string list \<Rightarrow> string set \<times> string list"
where
  "collectDependencies featureMap currentId (visited, allDeps) =
     (if currentId \<in> visited then (visited, allDeps)
      else (case map_of featureMap currentId of
              None \<Rightarrow> (insert currentId visited, allDeps)
            | Some feature \<Rightarrow>
                (case dependencies feature of
                   None \<Rightarrow> (insert currentId visited, allDeps)
                 | Some ds \<Rightarrow> collectDependenciesLoop featureMap ds (insert currentId visited, allDeps))))"
| "collectDependenciesLoop featureMap [] st = st"
| "collectDependenciesLoop featureMap (depId # rest) (visited, allDeps) =
     (if depId \<notin> set allDeps
      then collectDependenciesLoop featureMap rest
             (collectDependencies featureMap depId (visited, allDeps @ [depId]))
      else collectDependenciesLoop featureMap rest (visited, allDeps))"
  by pat_completeness auto

lemma collect_visited_mono:
  "collectDependencies_collectDependenciesLoop_dom (Inl (fm, c, st)) \<Longrightarrow>
     fst st \<subseteq> fst (collectDependencies fm c st)"
  "collectDependencies_collectDependenciesLoop_dom (Inr (fm, ds, st)) \<Longrightarrow>
     fst st \<subseteq> fst (collectDependenciesLoop fm ds st)"
proof (induction fm c st and fm ds st rule: collectDependencies_collectDependenciesLoop.pinduct)
  case (1 featureMap currentId visited allDeps)
  then show ?case
    by (auto simp: collectDependencies.psimps split: option.splits)
next
  case (2 featureMap st)
  then show ?case by (simp add: collectDependenciesLoop.psimps)
next
  case (3 featureMap depId rest visited allDeps)
  then show ?case
    by (auto simp: collectDependenciesLoop.psimps split: if_splits)
qed

termination collectDependencies
proof (relation "inv_image (measure id <*lex*> measure id)
    (\<lambda>x. case x of
        Inl (fm, c, st) \<Rightarrow> (card (dom (map_of fm) - fst st), 0)
      | Inr (fm, ds, st) \<Rightarrow> (card (dom (map_of fm) - fst st), Suc (length ds)))", goal_cases)
  case 1
  show ?case by (intro wf_inv_image wf_lex_prod wf_measure)
next
  case (2 featureMap currentId visited allDeps x2 x2a)
  have fin: "finite (dom (map_of featureMap) - visited)"
    by (simp add: finite_dom_map_of)
  have mem: "currentId \<in> dom (map_of featureMap) - visited"
    using 2 by auto
  have eq: "dom (map_of featureMap) - insert currentId visited
        = (dom (map_of featureMap) - visited) - {currentId}"
    by auto
  have "card ((dom (map_of featureMap) - visited) - {currentId})
        < card (dom (map_of featureMap) - visited)"
    using fin mem by (rule card_Diff1_less)
  then show ?case by (simp add: eq)
next
  case (3 featureMap depId rest visited allDeps)
  then show ?case by simp
next
  case (4 featureMap depId rest visited allDeps)
  from collect_visited_mono(1)[OF 4(2)]
  have "visited \<subseteq> fst (collectDependencies featureMap depId (visited, allDeps @ [depId]))"
    by simp
  then have "dom (map_of featureMap) - fst (collectDependencies featureMap depId (visited, allDeps @ [depId]))
       \<subseteq> dom (map_of featureMap) - visited" by auto
  then have "card (dom (map_of featureMap) - fst (collectDependencies featureMap depId (visited, allDeps @ [depId])))
       \<le> card (dom (map_of featureMap) - visited)"
    by (intro card_mono) (simp_all add: finite_dom_map_of)
  then show ?case by auto
next
  case (5 featureMap depId rest visited allDeps)
  then show ?case by simp
qed


declare collectDependencies.simps [simp del]

definition getAllDependencies :: "string \<Rightarrow> Feature list \<Rightarrow> string list" where
  "getAllDependencies featureId allFeatures =
     snd (collectDependencies (buildFeatureMap allFeatures) featureId ({}, []))"

text \<open>
  \<open>getAllDependents\<close>: \<open>collectDependents\<close> shares \<open>visited\<close> and \<open>dependents\<close> across
  its calls and scans the whole feature list for each target;
  \<open>collectDependentsLoop\<close> is that scan.
\<close>

function collectDependents ::
    "Feature list \<Rightarrow> string \<Rightarrow> string set \<times> string list \<Rightarrow> string set \<times> string list"
  and collectDependentsLoop ::
    "Feature list \<Rightarrow> string \<Rightarrow> Feature list \<Rightarrow> string set \<times> string list \<Rightarrow> string set \<times> string list"
where
  "collectDependents allFeatures targetId (visited, dependents) =
     (if targetId \<in> visited then (visited, dependents)
      else collectDependentsLoop allFeatures targetId allFeatures (insert targetId visited, dependents))"
| "collectDependentsLoop allFeatures targetId [] st = st"
| "collectDependentsLoop allFeatures targetId (feature # rest) (visited, dependents) =
     (if targetId \<in> set (depsOrEmpty feature) \<and> fid feature \<notin> set dependents
      then collectDependentsLoop allFeatures targetId rest
             (collectDependents allFeatures (fid feature) (visited, dependents @ [fid feature]))
      else collectDependentsLoop allFeatures targetId rest (visited, dependents))"
  by pat_completeness auto

lemma collect_dependents_mono:
  "collectDependents_collectDependentsLoop_dom (Inl (fs, t, st)) \<Longrightarrow>
     set (snd st) \<subseteq> set (snd (collectDependents fs t st))"
  "collectDependents_collectDependentsLoop_dom (Inr (fs, t, rest, st)) \<Longrightarrow>
     set (snd st) \<subseteq> set (snd (collectDependentsLoop fs t rest st))"
proof (induction fs t st and fs t rest st rule: collectDependents_collectDependentsLoop.pinduct)
  case (1 allFeatures targetId visited dependents)
  then show ?case
    by (auto simp: collectDependents.psimps)
next
  case (2 allFeatures targetId st)
  then show ?case by (simp add: collectDependentsLoop.psimps)
next
  case (3 allFeatures targetId feature rest visited dependents)
  then show ?case
    by (auto simp: collectDependentsLoop.psimps split: if_splits)
qed

termination collectDependents
proof (relation "inv_image (measure id <*lex*> measure id)
    (\<lambda>x. case x of
        Inl (fs, t, st) \<Rightarrow> (card (fid ` set fs - set (snd st)), Suc (length fs))
      | Inr (fs, t, rest, st) \<Rightarrow> (card (fid ` (set fs \<union> set rest) - set (snd st)), length rest))",
    goal_cases)
  case 1
  show ?case by (intro wf_inv_image wf_lex_prod wf_measure)
next
  case (2 allFeatures targetId visited dependents)
  then show ?case by simp
next
  case (3 allFeatures targetId feature rest visited dependents)
  let ?U = "fid ` (set allFeatures \<union> set (feature # rest))"
  have fin: "finite (?U - set dependents)" by simp
  have mem: "fid feature \<in> ?U - set dependents" using 3 by simp
  have "card ((?U - set dependents) - {fid feature}) < card (?U - set dependents)"
    using fin mem by (rule card_Diff1_less)
  moreover have "card (fid ` set allFeatures - set (dependents @ [fid feature]))
      \<le> card ((?U - set dependents) - {fid feature})"
    by (rule card_mono) auto
  ultimately show ?case by simp
next
  case (4 allFeatures targetId feature rest visited dependents)
  let ?r = "collectDependents allFeatures (fid feature) (visited, dependents @ [fid feature])"
  from collect_dependents_mono(1)[OF 4(2)]
  have "set dependents \<subseteq> set (snd ?r)" by simp
  then have "fid ` (set allFeatures \<union> set rest) - set (snd ?r)
       \<subseteq> fid ` (set allFeatures \<union> set (feature # rest)) - set dependents" by auto
  then have "card (fid ` (set allFeatures \<union> set rest) - set (snd ?r))
       \<le> card (fid ` (set allFeatures \<union> set (feature # rest)) - set dependents)"
    by (intro card_mono) simp_all
  then show ?case by auto
next
  case (5 allFeatures targetId feature rest visited dependents)
  have "card (fid ` (set allFeatures \<union> set rest) - set dependents)
       \<le> card (fid ` (set allFeatures \<union> set (feature # rest)) - set dependents)"
    by (rule card_mono) auto
  then show ?case by auto
qed

declare collectDependents.simps [simp del]

definition getAllDependents :: "string \<Rightarrow> Feature list \<Rightarrow> string list" where
  "getAllDependents featureId allFeatures =
     snd (collectDependents allFeatures featureId ({}, []))"

section \<open>Event emitter (createEventEmitter)\<close>




















section \<open>Auto-mode scheduler\<close>

text \<open>
  Modelled from the spec: the auto-mode scheduler and its control surface.  The sources
  hold only the end-to-end test of the scheduler, not the scheduler itself, so every
  definition of this section follows sections 3 to 7 of the specification.
\<close>

text \<open>Modelled from the spec: the kinds of \<open>DispatchError\<close> (section 7): the Feature Store
  update failed, or the Agent Runner failed to start.\<close>

datatype DispatchError = StoreUpdateFailed | RunnerStartFailed

text \<open>
  Modelled from the spec: the scheduler state of section 3 (\<open>enabled\<close>,
  \<open>concurrencyLimit\<close>, \<open>activeSet\<close>, of which only the feature ids matter here), together
  with the content of the Feature Store it reads and writes and the log to which dispatch
  errors are surfaced.
\<close>

record Scheduler =
  enabled :: bool
  concurrencyLimit :: nat
  activeSet :: "string list"
  store :: "Feature list"
  errorLog :: "(string \<times> DispatchError) list"

text \<open>
  Modelled from the spec: the collaborators may fail (section 6).  Which Feature Store
  updates and which Agent Runner starts throw during one scheduling pass is given from
  outside, per feature id.
\<close>

record Env =
  storeFails :: "string \<Rightarrow> bool"
  runnerFails :: "string \<Rightarrow> bool"

text \<open>Modelled from the spec: \<open>updateStatus(id, newStatus)\<close> of the Feature Store.\<close>

definition updateStatus :: "string \<Rightarrow> FeatureStatus \<Rightarrow> Feature list \<Rightarrow> Feature list" where
  "updateStatus i st fs = map (\<lambda>f. if fid f = i then f\<lparr>status := st\<rparr> else f) fs"

text \<open>Modelled from the spec: \<open>get(id)\<close> of the Feature Store, read for the status.\<close>

definition statusOf :: "Feature list \<Rightarrow> string \<Rightarrow> FeatureStatus option" where
  "statusOf fs i = map_option status (find (\<lambda>f. fid f = i) fs)"

text \<open>
  Modelled from the spec: the eligibility rule of section 4.1.  A dependency is satisfied
  when its status is \<open>completed\<close> or \<open>verified\<close>; a backlog feature is eligible when every
  id in its dependency list is satisfied and it is not already in \<open>activeSet\<close>
  (section 4.2, step 3).
\<close>

definition dependencySatisfied :: "Feature list \<Rightarrow> string \<Rightarrow> bool" where
  "dependencySatisfied fs d = (statusOf fs d = Some completed \<or> statusOf fs d = Some verified)"

definition eligible :: "Feature list \<Rightarrow> string list \<Rightarrow> Feature \<Rightarrow> bool" where
  "eligible fs active f \<longleftrightarrow>
     status f = backlog \<and> list_all (dependencySatisfied fs) (depsOrEmpty f) \<and> fid f \<notin> set active"

text \<open>
  Modelled from the spec: steps 2 to 4 of the core loop.  The free slots, and the
  features picked for dispatch: the eligible set ordered by priority, then creation time,
  cut to the free slots.
\<close>

definition availableSlots :: "Scheduler \<Rightarrow> int" where
  "availableSlots s = int (concurrencyLimit s) - int (length (activeSet s))"

definition selected :: "Scheduler \<Rightarrow> Feature list" where
  "selected s =
     take (nat (availableSlots s))
       (sort_key (\<lambda>f. (priority f, createdAt f))
          (filter (eligible (store s) (activeSet s)) (store s)))"

text \<open>
  Modelled from the spec: step 5 and the error handling of section 4.2 for one feature.
  The feature is marked \<open>in_progress\<close> in the store, inserted into \<open>activeSet\<close>, and its
  session is started.  If the store update throws, nothing was written and the error is
  logged; if the runner start throws, the feature is taken out of \<open>activeSet\<close>, set back
  to \<open>backlog\<close>, and the error is logged.
\<close>

definition dispatch :: "Env \<Rightarrow> Scheduler \<Rightarrow> Feature \<Rightarrow> Scheduler" where
  "dispatch env s f =
     (if storeFails env (fid f)
      then s\<lparr> errorLog := errorLog s @ [(fid f, StoreUpdateFailed)] \<rparr>
      else if runnerFails env (fid f)
      then s\<lparr> store := updateStatus (fid f) backlog (updateStatus (fid f) in_progress (store s)),
               activeSet := removeAll (fid f) (activeSet s @ [fid f]),
               errorLog := errorLog s @ [(fid f, RunnerStartFailed)] \<rparr>
      else s\<lparr> store := updateStatus (fid f) in_progress (store s),
               activeSet := activeSet s @ [fid f] \<rparr>)"

text \<open>
  Modelled from the spec: one scheduling pass (steps 2 to 5), a single critical section
  (section 5).  A failed dispatch does not end the pass.
\<close>

definition schedulingPass :: "Env \<Rightarrow> Scheduler \<Rightarrow> Scheduler" where
  "schedulingPass env s =
     (if availableSlots s \<le> 0 \<or> \<not> enabled s then s
      else foldl (dispatch env) s (selected s))"

text \<open>
  Modelled from the spec: the triggers of step 1 and the control surface of section 4.3.
  \<open>StatusChanged\<close> is a status change made outside the scheduler (a human approval, a
  requeue); \<open>SessionSuccess\<close> and \<open>SessionFailure\<close> are the terminal events of a session.
\<close>

datatype Trigger =
    Enable
  | Disable
  | SetConcurrency int
  | StatusChanged string FeatureStatus
  | SessionSuccess string
  | SessionFailure string

text \<open>
  Modelled from the spec: what a trigger does before the loop is re-triggered (steps 6
  to 8, section 4.3).  \<open>None\<close> is a trigger that is rejected or concerns no running
  session: \<open>setConcurrency\<close> rejects a non-positive value and otherwise leaves \<open>activeSet\<close>
  alone; a terminal event moves the feature to \<open>waiting_approval\<close> or \<open>failed\<close> and removes
  it from \<open>activeSet\<close>.
\<close>

fun applyTrigger :: "Trigger \<Rightarrow> Scheduler \<Rightarrow> Scheduler option" where
  "applyTrigger Enable s = Some (s\<lparr> enabled := True \<rparr>)"
| "applyTrigger Disable s = Some (s\<lparr> enabled := False \<rparr>)"
| "applyTrigger (SetConcurrency n) s =
     (if n < 1 then None else Some (s\<lparr> concurrencyLimit := nat n \<rparr>))"
| "applyTrigger (StatusChanged i st) s = Some (s\<lparr> store := updateStatus i st (store s) \<rparr>)"
| "applyTrigger (SessionSuccess i) s =
     (if i \<in> set (activeSet s)
      then Some (s\<lparr> store := updateStatus i waiting_approval (store s),
                     activeSet := removeAll i (activeSet s) \<rparr>)
      else None)"
| "applyTrigger (SessionFailure i) s =
     (if i \<in> set (activeSet s)
      then Some (s\<lparr> store := updateStatus i failed (store s),
                     activeSet := removeAll i (activeSet s) \<rparr>)
      else None)"

text \<open>Modelled from the spec: a trigger, then the scheduling pass it re-triggers.  With
  auto-mode disabled the pass does nothing.\<close>

definition step :: "Env \<Rightarrow> Trigger \<Rightarrow> Scheduler \<Rightarrow> Scheduler" where
  "step env t s = (case applyTrigger t s of None \<Rightarrow> s | Some s1 \<Rightarrow> schedulingPass env s1)"

text \<open>Modelled from the spec: the states observed after each trigger of a sequence,
  triggers being handled one at a time (section 5).\<close>

fun observed :: "(Env \<times> Trigger) list \<Rightarrow> Scheduler \<Rightarrow> Scheduler list" where
  "observed [] s = []"
| "observed ((env, t) # rest) s = step env t s # observed rest (step env t s)"

text \<open>Modelled from the spec: \<open>getStatus()\<close>, the snapshot for the UI.\<close>

definition getStatus :: "Scheduler \<Rightarrow> bool \<times> nat \<times> nat \<times> string list" where
  "getStatus s = (enabled s, concurrencyLimit s, length (activeSet s), activeSet s)"

text \<open>Modelled from the spec: a dispatch fails when either collaborator throws.\<close>

definition dispatchFails :: "Env \<Rightarrow> string \<Rightarrow> bool" where
  "dispatchFails env i \<longleftrightarrow> storeFails env i \<or> runnerFails env i"

text \<open>Modelled from the spec: collaborators that never throw, and a scheduler that has
  not been enabled yet, with limit \<open>k\<close> over the store \<open>fs\<close>.\<close>

definition noFailures :: Env where
  "noFailures = \<lparr> storeFails = (\<lambda>i. False), runnerFails = (\<lambda>i. False) \<rparr>"

definition initialScheduler :: "nat \<Rightarrow> Feature list \<Rightarrow> Scheduler" where
  "initialScheduler k fs =
     \<lparr> enabled = False, concurrencyLimit = k, activeSet = [], store = fs, errorLog = [] \<rparr>"

text \<open>Modelled from the spec: the state a sequence of triggers ends in.\<close>

fun runTriggers :: "(Env \<times> Trigger) list \<Rightarrow> Scheduler \<Rightarrow> Scheduler" where
  "runTriggers [] s = s"
| "runTriggers ((env, t) # rest) s = runTriggers rest (step env t s)"

text \<open>A backlog feature without dependencies, created at time \<open>t\<close>.\<close>

definition backlogFeature :: "string \<Rightarrow> nat \<Rightarrow> Feature" where
  "backlogFeature i t = (createFeature i [])\<lparr> createdAt := t \<rparr>"

text \<open>
  Modelled from the spec: the state the drain-and-refill scenario (section 8) passes
  through with limit 1: auto-mode on, the features \<open>finished\<close> in \<open>waiting_approval\<close>, the
  features \<open>running\<close> in progress and active, every other feature in \<open>backlog\<close>.
\<close>

definition stage :: "Feature list \<Rightarrow> Feature list \<Rightarrow> Feature list \<Rightarrow> Scheduler" where
  "stage fs finished running =
     \<lparr> enabled = True, concurrencyLimit = 1, activeSet = map fid running,
       store = map (\<lambda>f. f\<lparr>status :=
                 (if fid f \<in> fid ` set finished then waiting_approval
                  else if fid f \<in> fid ` set running then in_progress else backlog)\<rparr>) fs,
       errorLog = [] \<rparr>"

section \<open>The dependency graph\<close>

text \<open>The edges a feature map stores: \<open>a\<close> depends on \<open>b\<close>.\<close>

definition depEdges :: "(string \<times> Feature) list \<Rightarrow> (string \<times> string) set" where
  "depEdges fm = {(a, b). \<exists>f. map_of fm a = Some f \<and> b \<in> set (depsOrEmpty f)}"

text \<open>The stored edges that do not start in \<open>V\<close>.\<close>

definition restrEdges :: "(string \<times> Feature) list \<Rightarrow> string set \<Rightarrow> (string \<times> string) set" where
  "restrEdges fm V = {(a, b). a \<notin> V \<and> (a, b) \<in> depEdges fm}"

text \<open>The stored dependency graph of a feature list, as the lookup map reads it.\<close>

definition dependsOn :: "Feature list \<Rightarrow> (string \<times> string) set" where
  "dependsOn allFeatures = depEdges (buildFeatureMap allFeatures)"

text \<open>The dependency graph read off the feature list itself: one edge per entry of a
  feature's dependency list.\<close>

definition featureGraph :: "Feature list \<Rightarrow> (string \<times> string) set" where
  "featureGraph allFeatures =
     {(a, b). \<exists>f \<in> set allFeatures. a = fid f \<and> b \<in> set (depsOrEmpty f)}"

text \<open>
  The graph that results from giving the candidate \<open>c\<close> the proposed dependency list:
  every stored edge that does not start at \<open>c\<close>, and an edge from \<open>c\<close> to each proposed id.
\<close>

definition proposedGraph :: "string \<Rightarrow> string list \<Rightarrow> Feature list \<Rightarrow> (string \<times> string) set" where
  "proposedGraph c deps allFeatures =
     {(a, b). (a, b) \<in> dependsOn allFeatures \<and> a \<noteq> c} \<union> {c} \<times> set deps"

section \<open>Path search\<close>

lemma restr_step:
  assumes "(s, t) \<in> (restrEdges fm V)\<^sup>+"
  shows "(s, t) \<in> depEdges fm \<or> (\<exists>n. (s, n) \<in> depEdges fm \<and> (n, t) \<in> (restrEdges fm (insert s V))\<^sup>+)"
  using assms
proof (induction rule: trancl_induct)
  case (base y)
  then show ?case by (simp add: restrEdges_def)
next
  case (step y z)
  show ?case
  proof (cases "y = s")
    case True
    with step.hyps(2) show ?thesis by (simp add: restrEdges_def)
  next
    case False
    with step.hyps(2) have yz: "(y, z) \<in> restrEdges fm (insert s V)"
      by (simp add: restrEdges_def)
    from step.IH show ?thesis
    proof
      assume "(s, y) \<in> depEdges fm"
      with yz show ?thesis by blast
    next
      assume "\<exists>n. (s, n) \<in> depEdges fm \<and> (n, y) \<in> (restrEdges fm (insert s V))\<^sup>+"
      then obtain n where "(s, n) \<in> depEdges fm" "(n, y) \<in> (restrEdges fm (insert s V))\<^sup>+" by blast
      with yz show ?thesis by (meson trancl.trancl_into_trancl)
    qed
  qed
qed

lemma restr_mono: "(n, t) \<in> (restrEdges fm (insert s V))\<^sup>+ \<Longrightarrow> (n, t) \<in> (restrEdges fm V)\<^sup>+"
  by (rule trancl_mono[where r="restrEdges fm (insert s V)"]) (auto simp: restrEdges_def)

lemma hasPath_iff:
  "hasPathBetweenFeatures s t fm add V \<longleftrightarrow>
     s \<notin> V \<and> s \<in> dom (map_of fm) \<and>
     (t \<in> set add \<or> (s, t) \<in> (restrEdges fm V)\<^sup>+ \<or>
      (\<exists>e \<in> set add. (e, t) \<in> (restrEdges fm (insert s V))\<^sup>+))"
proof (induction s t fm add V rule: hasPathBetweenFeatures.induct)
  case (1 s t fm add V)
  show ?case
  proof (cases "s \<in> V")
    case True
    then show ?thesis by (simp add: hasPathBetweenFeatures.simps[of s t fm add V])
  next
    case nv: False
    show ?thesis
    proof (cases "map_of fm s")
      case None
      then show ?thesis using nv by (auto simp: hasPathBetweenFeatures.simps[of s t fm add V])
    next
      case (Some f)
      have edges: "\<And>b. (s, b) \<in> depEdges fm \<longleftrightarrow> b \<in> set (depsOrEmpty f)"
        using Some by (simp add: depEdges_def)
      have IH: "\<And>d. d \<in> set (depsOrEmpty f @ add) \<Longrightarrow> t \<notin> set (depsOrEmpty f @ add) \<Longrightarrow>
         hasPathBetweenFeatures d t fm [] (insert s V) \<longleftrightarrow>
           (d \<notin> insert s V \<and> d \<in> dom (map_of fm) \<and> (d, t) \<in> (restrEdges fm (insert s V))\<^sup>+)"
        using "1.IH"[OF nv Some] by simp
      have tr: "\<And>d. (d, t) \<in> (restrEdges fm (insert s V))\<^sup>+ \<Longrightarrow> d \<notin> insert s V \<and> d \<in> dom (map_of fm)"
        by (auto simp: restrEdges_def depEdges_def dest!: tranclD)
      show ?thesis
      proof (cases "t \<in> set (depsOrEmpty f @ add)")
        case True
        then have "hasPathBetweenFeatures s t fm add V"
          using nv Some by (simp add: hasPathBetweenFeatures.simps[of s t fm add V])
        moreover have "t \<in> set add \<or> (s, t) \<in> (restrEdges fm V)\<^sup>+"
          using True nv edges by (auto simp: restrEdges_def)
        ultimately show ?thesis using nv Some by auto
      next
        case False
        have "hasPathBetweenFeatures s t fm add V \<longleftrightarrow>
              (\<exists>d \<in> set (depsOrEmpty f @ add). hasPathBetweenFeatures d t fm [] (insert s V))"
          using nv Some False by (simp add: hasPathBetweenFeatures.simps[of s t fm add V] list_ex_iff)
        also have "\<dots> \<longleftrightarrow> (\<exists>d \<in> set (depsOrEmpty f @ add). (d, t) \<in> (restrEdges fm (insert s V))\<^sup>+)"
          using IH[OF _ False] tr by blast
        also have "\<dots> \<longleftrightarrow> ((s, t) \<in> (restrEdges fm V)\<^sup>+ \<or>
              (\<exists>e \<in> set add. (e, t) \<in> (restrEdges fm (insert s V))\<^sup>+))"
        proof -
          have a: "(s, t) \<in> (restrEdges fm V)\<^sup>+ \<longleftrightarrow>
                (\<exists>d \<in> set (depsOrEmpty f). (d, t) \<in> (restrEdges fm (insert s V))\<^sup>+)"
          proof
            assume "(s, t) \<in> (restrEdges fm V)\<^sup>+"
            from restr_step[OF this] False edges
            show "\<exists>d \<in> set (depsOrEmpty f). (d, t) \<in> (restrEdges fm (insert s V))\<^sup>+"
              by auto
          next
            assume "\<exists>d \<in> set (depsOrEmpty f). (d, t) \<in> (restrEdges fm (insert s V))\<^sup>+"
            then obtain d where d: "d \<in> set (depsOrEmpty f)" "(d, t) \<in> (restrEdges fm (insert s V))\<^sup>+"
              by blast
            have "(s, d) \<in> restrEdges fm V" using d(1) nv edges by (simp add: restrEdges_def)
            with restr_mono[OF d(2)] show "(s, t) \<in> (restrEdges fm V)\<^sup>+" by simp
          qed
          show ?thesis unfolding a by auto
        qed
        finally show ?thesis using nv Some False by auto
      qed
    qed
  qed
qed


lemma restrEdges_empty: "restrEdges fm {} = depEdges fm"
  by (simp add: restrEdges_def)

lemma restrEdges_sub: "(restrEdges fm V)\<^sup>+ \<subseteq> (depEdges fm)\<^sup>+"
  by (rule trancl_mono_subset) (auto simp: restrEdges_def)

lemma wouldCreate_iff:
  "wouldCreateCircularDependency c d all add \<longleftrightarrow>
     c = d \<or> (d \<in> dom (map_of (buildFeatureMap all)) \<and>
       (c \<in> set add \<or> (d, c) \<in> (dependsOn all)\<^sup>+ \<or>
        (\<exists>e \<in> set add. (e, c) \<in> (restrEdges (buildFeatureMap all) {d})\<^sup>+)))"
  by (auto simp: wouldCreateCircularDependency_def hasPath_iff restrEdges_empty dependsOn_def)

lemma circularErrors_set:
  "set (circularErrors c deps all xs) =
     {circularError all d | d. d \<in> set xs \<and> d \<noteq> c \<and>
        wouldCreateCircularDependency c d all (filter (\<lambda>i. i \<noteq> d) deps)}"
  by (induction xs) auto

lemma selfError_not_circular: "selfDependencyError \<noteq> circularError all d"
  by (simp add: selfDependencyError_def circularError_def)

lemma duplicateError_not_circular: "duplicateError \<noteq> circularError all d"
  by (simp add: duplicateError_def circularError_def)

lemma selfError_not_duplicate: "selfDependencyError \<noteq> duplicateError"
  by (simp add: duplicateError_def selfDependencyError_def)

lemma card_length_distinct: "card (set xs) \<noteq> length xs \<longleftrightarrow> \<not> distinct xs"
  using card_distinct distinct_card by metis

lemma errors_validate:
  "set (errors (validateDependencies c deps all)) =
     (if c \<in> set deps then {selfDependencyError} else {}) \<union>
     (if distinct deps then {} else {duplicateError}) \<union>
     set (circularErrors c deps all deps)"
  by (auto simp: validateDependencies_def Let_def card_length_distinct)

lemma valid_validate:
  "valid (validateDependencies c deps all) \<longleftrightarrow> errors (validateDependencies c deps all) = []"
  by (simp add: validateDependencies_def Let_def)

text \<open>
  Claim C3.  \<open>validateDependencies\<close> answers \<open>valid = False\<close> with the self-dependency
  message exactly when the candidate id occurs in the proposed list, and \<open>valid = False\<close>
  with the duplicate message exactly when the proposed list repeats an id; when both
  conditions hold, both messages are in the same answer.
\<close>

theorem validateDependencies_self_duplicate:
  "((\<not> valid (validateDependencies c deps all) \<and>
      selfDependencyError \<in> set (errors (validateDependencies c deps all))) \<longleftrightarrow> c \<in> set deps)
   \<and> ((\<not> valid (validateDependencies c deps all) \<and>
      duplicateError \<in> set (errors (validateDependencies c deps all))) \<longleftrightarrow> \<not> distinct deps)
   \<and> (c \<in> set deps \<and> \<not> distinct deps \<longrightarrow>
        selfDependencyError \<in> set (errors (validateDependencies c deps all)) \<and>
        duplicateError \<in> set (errors (validateDependencies c deps all)))"
proof -
  let ?r = "validateDependencies c deps all"
  have nv: "\<And>e. e \<in> set (errors ?r) \<Longrightarrow> \<not> valid ?r"
    by (auto simp: valid_validate)
  have s: "selfDependencyError \<in> set (errors ?r) \<longleftrightarrow> c \<in> set deps"
    using selfError_not_circular selfError_not_duplicate
    by (auto simp: errors_validate circularErrors_set)
  have d: "duplicateError \<in> set (errors ?r) \<longleftrightarrow> \<not> distinct deps"
    using duplicateError_not_circular selfError_not_duplicate
    by (auto simp: errors_validate circularErrors_set)
  show ?thesis using nv s d by blast
qed

theorem validateDependencies_self_duplicate_witness:
  "\<not> valid (validateDependencies ''A'' [''A'', ''B'', ''B'']
              [createFeature ''A'' [''B''], createFeature ''B'' []])
   \<and> selfDependencyError \<in> set (errors (validateDependencies ''A'' [''A'', ''B'', ''B'']
              [createFeature ''A'' [''B''], createFeature ''B'' []]))
   \<and> duplicateError \<in> set (errors (validateDependencies ''A'' [''A'', ''B'', ''B'']
              [createFeature ''A'' [''B''], createFeature ''B'' []]))"
  using validateDependencies_self_duplicate [of "''A''" "[''A'', ''B'', ''B'']"
          "[createFeature ''A'' [''B''], createFeature ''B'' []]"]
  by simp

lemma to_candidate_avoiding:
  assumes "(a, c) \<in> E\<^sup>+" "a \<noteq> c"
  shows "(a, c) \<in> {(x, y). (x, y) \<in> E \<and> x \<noteq> c}\<^sup>+"
  using assms
proof (induction rule: converse_trancl_induct)
  case (base y)
  then show ?case by auto
next
  case (step y z)
  show ?case
  proof (cases "z = c")
    case True
    with step.hyps(1) step.prems show ?thesis by auto
  next
    case False
    with step.IH have "(z, c) \<in> {(x, y). (x, y) \<in> E \<and> x \<noteq> c}\<^sup>+" by simp
    moreover have "(y, z) \<in> {(x, y). (x, y) \<in> E \<and> x \<noteq> c}" using step.hyps(1) step.prems by simp
    ultimately show ?thesis by (rule trancl_into_trancl2[rotated])
  qed
qed

lemma cycle_through_candidate:
  assumes "(x, c) \<in> (proposedGraph c deps all)\<^sup>+"
  shows "(x \<noteq> c \<longrightarrow> (x, c) \<in> (dependsOn all)\<^sup>+) \<and>
         (x = c \<longrightarrow> (\<exists>d \<in> set deps. d = c \<or> (d, c) \<in> (dependsOn all)\<^sup>+))"
  using assms
proof (induction rule: converse_trancl_induct)
  case (base y)
  then show ?case by (auto simp: proposedGraph_def)
next
  case (step y z)
  show ?case
  proof (cases "y = c")
    case True
    with step.hyps(1) have "z \<in> set deps" by (auto simp: proposedGraph_def)
    with step.IH True show ?thesis by (cases "z = c") auto
  next
    case False
    with step.hyps(1) have yz: "(y, z) \<in> dependsOn all" by (auto simp: proposedGraph_def)
    show ?thesis
    proof (cases "z = c")
      case True
      with yz False show ?thesis by auto
    next
      case zc: False
      with step.IH have "(z, c) \<in> (dependsOn all)\<^sup>+" by simp
      with yz False show ?thesis by (auto intro: trancl_into_trancl2)
    qed
  qed
qed

lemma chain_in_proposedGraph:
  assumes "d \<in> set deps" "d = c \<or> (d, c) \<in> (dependsOn all)\<^sup>+"
  shows "(c, c) \<in> (proposedGraph c deps all)\<^sup>+"
proof (cases "d = c")
  case True
  with assms(1) show ?thesis by (auto simp: proposedGraph_def)
next
  case False
  with assms(2) have "(d, c) \<in> {(x, y). (x, y) \<in> dependsOn all \<and> x \<noteq> c}\<^sup>+"
    by (auto intro: to_candidate_avoiding)
  then have "(d, c) \<in> (proposedGraph c deps all)\<^sup>+"
    by (rule trancl_mono) (auto simp: proposedGraph_def)
  moreover have "(c, d) \<in> proposedGraph c deps all" using assms(1) by (simp add: proposedGraph_def)
  ultimately show ?thesis by (rule trancl_into_trancl2[rotated])
qed

lemma valid_iff:
  "valid (validateDependencies c deps all) \<longleftrightarrow>
     distinct deps \<and> (c, c) \<notin> (proposedGraph c deps all)\<^sup>+"
proof -
  let ?r = "validateDependencies c deps all"
  have v: "valid ?r \<longleftrightarrow> set (errors ?r) = {}"
    by (simp add: valid_validate)
  have circ: "set (circularErrors c deps all deps) = {} \<longleftrightarrow>
      (\<forall>d \<in> set deps. d \<noteq> c \<longrightarrow> \<not> wouldCreateCircularDependency c d all (filter (\<lambda>i. i \<noteq> d) deps))"
    by (auto simp: circularErrors_set)
  show ?thesis
  proof
    assume "valid ?r"
    then have e: "set (errors ?r) = {}" by (simp add: v)
    then have nself: "c \<notin> set deps" and dist: "distinct deps"
      and nc: "\<And>d. d \<in> set deps \<Longrightarrow> d \<noteq> c \<Longrightarrow>
           \<not> wouldCreateCircularDependency c d all (filter (\<lambda>i. i \<noteq> d) deps)"
      by (auto simp: errors_validate circularErrors_set split: if_splits)
    have "(c, c) \<notin> (proposedGraph c deps all)\<^sup>+"
    proof
      assume "(c, c) \<in> (proposedGraph c deps all)\<^sup>+"
      from cycle_through_candidate[OF this] obtain d where d: "d \<in> set deps" "d = c \<or> (d, c) \<in> (dependsOn all)\<^sup>+"
        by auto
      with nself have dc: "d \<noteq> c" and p: "(d, c) \<in> (dependsOn all)\<^sup>+" by auto
      from p have "d \<in> dom (map_of (buildFeatureMap all))"
        by (auto simp: dependsOn_def depEdges_def dest!: tranclD)
      with p have "wouldCreateCircularDependency c d all (filter (\<lambda>i. i \<noteq> d) deps)"
        by (simp add: wouldCreate_iff)
      with nc[OF d(1) dc] show False by simp
    qed
    with dist show "distinct deps \<and> (c, c) \<notin> (proposedGraph c deps all)\<^sup>+" by simp
  next
    assume a: "distinct deps \<and> (c, c) \<notin> (proposedGraph c deps all)\<^sup>+"
    have nochain: "\<And>d. d \<in> set deps \<Longrightarrow> d \<noteq> c \<and> (d, c) \<notin> (dependsOn all)\<^sup>+"
      using a chain_in_proposedGraph by blast
    have "\<not> wouldCreateCircularDependency c d all (filter (\<lambda>i. i \<noteq> d) deps)" if d: "d \<in> set deps" for d
    proof
      assume w: "wouldCreateCircularDependency c d all (filter (\<lambda>i. i \<noteq> d) deps)"
      from nochain[OF d] have "c \<noteq> d" "(d, c) \<notin> (dependsOn all)\<^sup>+" by auto
      with w have "c \<in> set deps \<or> (\<exists>e \<in> set deps. (e, c) \<in> (restrEdges (buildFeatureMap all) {d})\<^sup>+)"
        by (auto simp: wouldCreate_iff)
      then show False
      proof
        assume "c \<in> set deps" with nochain show False by blast
      next
        assume "\<exists>e \<in> set deps. (e, c) \<in> (restrEdges (buildFeatureMap all) {d})\<^sup>+"
        then obtain e where "e \<in> set deps" "(e, c) \<in> (restrEdges (buildFeatureMap all) {d})\<^sup>+" by blast
        then have "e \<in> set deps" "(e, c) \<in> (dependsOn all)\<^sup>+"
          using restrEdges_sub by (auto simp: dependsOn_def)
        with nochain show False by blast
      qed
    qed
    then have "set (circularErrors c deps all deps) = {}" by (auto simp: circularErrors_set)
    moreover have "c \<notin> set deps" using nochain by blast
    ultimately show "valid ?r" using a by (simp add: v errors_validate)
  qed
qed

lemma acyclic_star: "c \<notin> S \<Longrightarrow> acyclic ({c} \<times> S)"
proof (rule acyclicI, rule allI, rule notI)
  fix x assume c: "c \<notin> S" and "(x, x) \<in> ({c} \<times> S)\<^sup>+"
  then obtain z where z: "(x, z) \<in> {c} \<times> S" "(z, x) \<in> ({c} \<times> S)\<^sup>*"
    by (blast dest: tranclD)
  then have "x = c" "z \<in> S" by auto
  with c z(2) have "(z, c) \<in> ({c} \<times> S)\<^sup>+" by (auto simp: rtrancl_eq_or_trancl)
  then obtain w where "(z, w) \<in> {c} \<times> S" by (blast dest: tranclD)
  with \<open>z \<in> S\<close> c show False by auto
qed

text \<open>
  Claim C2, as the code has it.  \<open>validateDependencies\<close> answers \<open>valid = False\<close> whenever
  the proposed list closes a cycle through the candidate: the candidate itself is proposed
  (length 1), or a proposed id reaches the candidate through the stored graph (length 2
  and longer), or, in general, the candidate lies on a cycle of the resulting graph.  It
  answers \<open>valid = True\<close> with no errors whenever the resulting graph is acyclic and the
  proposed list repeats no id.
\<close>

theorem validateDependencies_cycle_rejection:
  "(c \<in> set deps \<longrightarrow> \<not> valid (validateDependencies c deps all))
   \<and> (\<forall>d \<in> set deps. (d, c) \<in> (dependsOn all)\<^sup>+ \<longrightarrow> \<not> valid (validateDependencies c deps all))
   \<and> ((c, c) \<in> (proposedGraph c deps all)\<^sup>+ \<longrightarrow> \<not> valid (validateDependencies c deps all))
   \<and> (distinct deps \<and> acyclic (proposedGraph c deps all) \<longrightarrow>
        valid (validateDependencies c deps all) \<and> errors (validateDependencies c deps all) = [])"
proof -
  have 1: "c \<in> set deps \<Longrightarrow> (c, c) \<in> (proposedGraph c deps all)\<^sup>+"
    by (auto simp: proposedGraph_def)
  have 2: "\<And>d. d \<in> set deps \<Longrightarrow> (d, c) \<in> (dependsOn all)\<^sup>+ \<Longrightarrow> (c, c) \<in> (proposedGraph c deps all)\<^sup>+"
    by (rule chain_in_proposedGraph) auto
  have 3: "acyclic (proposedGraph c deps all) \<Longrightarrow> (c, c) \<notin> (proposedGraph c deps all)\<^sup>+"
    by (simp add: acyclic_def)
  show ?thesis using 1 2 3 by (auto simp: valid_iff valid_validate[symmetric])
qed

theorem validateDependencies_cycle_rejection_witness:
  "(''A'', ''D'') \<in> (dependsOn [createFeature ''A'' [''B''], createFeature ''B'' [''C''],
         createFeature ''C'' [''D''], createFeature ''D'' []])\<^sup>+
   \<and> \<not> valid (validateDependencies ''D'' [''A''] [createFeature ''A'' [''B''], createFeature ''B'' [''C''],
         createFeature ''C'' [''D''], createFeature ''D'' []])
   \<and> distinct [''B'', ''C'']
   \<and> acyclic (proposedGraph ''A'' [''B'', ''C'']
         [createFeature ''A'' [], createFeature ''B'' [], createFeature ''C'' []])
   \<and> valid (validateDependencies ''A'' [''B'', ''C'']
         [createFeature ''A'' [], createFeature ''B'' [], createFeature ''C'' []])
   \<and> errors (validateDependencies ''A'' [''B'', ''C'']
         [createFeature ''A'' [], createFeature ''B'' [], createFeature ''C'' []]) = []"
proof -
  let ?chain = "[createFeature ''A'' [''B''], createFeature ''B'' [''C''],
         createFeature ''C'' [''D''], createFeature ''D'' []]"
  let ?flat = "[createFeature ''A'' [], createFeature ''B'' [], createFeature ''C'' []]"
  have e: "dependsOn ?chain = {(''A'', ''B''), (''B'', ''C''), (''C'', ''D'')}"
    by (auto simp: dependsOn_def depEdges_def buildFeatureMap_def createFeature_def
          depsOrEmpty_def split: if_splits)
  have p: "(''A'', ''D'') \<in> (dependsOn ?chain)\<^sup>+"
    unfolding e by (meson insertI1 insertI2 trancl.simps)
  have g: "proposedGraph ''A'' [''B'', ''C''] ?flat = {''A''} \<times> {''B'', ''C''}"
    by (auto simp: proposedGraph_def dependsOn_def depEdges_def buildFeatureMap_def
          createFeature_def depsOrEmpty_def split: if_splits)
  have a: "acyclic (proposedGraph ''A'' [''B'', ''C''] ?flat)"
    unfolding g by (rule acyclic_star) simp
  show ?thesis
    using validateDependencies_cycle_rejection [of "''D''" "[''A'']" ?chain]
      validateDependencies_cycle_rejection [of "''A''" "[''B'', ''C'']" ?flat] p a
    by simp
qed


text \<open>
  The second half of the claim without the condition on repeated ids fails: proposing
  \<open>B\<close> twice for \<open>A\<close> leaves the resulting graph, the single edge from \<open>A\<close> to \<open>B\<close>,
  acyclic, and the answer is \<open>valid = False\<close>.
\<close>

theorem validateDependencies_dag_counterexample:
  "acyclic (proposedGraph ''A'' [''B'', ''B''] [createFeature ''A'' [], createFeature ''B'' []]) \<and>
   \<not> valid (validateDependencies ''A'' [''B'', ''B''] [createFeature ''A'' [], createFeature ''B'' []])"
proof -
  have g: "proposedGraph ''A'' [''B'', ''B''] [createFeature ''A'' [], createFeature ''B'' []]
        = {''A''} \<times> {''B''}"
    by (auto simp: proposedGraph_def dependsOn_def depEdges_def buildFeatureMap_def
          createFeature_def depsOrEmpty_def split: if_splits)
  have "acyclic ({''A''} \<times> {''B''})" by (rule acyclic_star) simp
  then show ?thesis unfolding g by (simp add: validateDependencies_def)
qed

section \<open>Depth of the path search\<close>

lemma firstTrue_Some: "firstTrue (map (\<lambda>d. Some (P d)) ds) = Some (list_ex P ds)"
proof (induction ds)
  case Nil
  then show ?case by simp
next
  case (Cons a ds)
  then show ?case by (cases "P a") simp_all
qed

lemma hasPathDepth_enough:
  "card (dom (map_of fm) - V) < n \<Longrightarrow>
     hasPathDepth n s t fm add V = Some (hasPathBetweenFeatures s t fm add V)"
proof (induction n arbitrary: s add V)
  case 0
  then show ?case by simp
next
  case (Suc n)
  show ?case
  proof (cases "s \<in> V \<or> map_of fm s = None")
    case True
    then show ?thesis by (auto simp: hasPathBetweenFeatures.simps[of s t fm add V])
  next
    case False
    then obtain f where f: "map_of fm s = Some f" and nv: "s \<notin> V" by auto
    have fin: "finite (dom (map_of fm) - V)" by (simp add: finite_dom_map_of)
    have mem: "s \<in> dom (map_of fm) - V" using f nv by auto
    have eq: "dom (map_of fm) - insert s V = (dom (map_of fm) - V) - {s}" by auto
    have "card ((dom (map_of fm) - V) - {s}) < card (dom (map_of fm) - V)"
      using fin mem by (rule card_Diff1_less)
    with Suc.prems have "card (dom (map_of fm) - insert s V) < n" by (simp add: eq)
    then have IH: "\<And>d. hasPathDepth n d t fm [] (insert s V)
        = Some (hasPathBetweenFeatures d t fm [] (insert s V))"
      by (rule Suc.IH)
    have "firstTrue (map (\<lambda>depId. hasPathDepth n depId t fm [] (insert s V)) ds)
        = Some (list_ex (\<lambda>depId. hasPathBetweenFeatures depId t fm [] (insert s V)) ds)" for ds
      by (simp only: IH firstTrue_Some)
    then show ?thesis
      using f nv by (simp add: hasPathBetweenFeatures.simps[of s t fm add V] del: map_append)
  qed
qed

lemma card_dom_le_length: "card (dom (map_of fm)) \<le> length fm"
  by (metis card_length dom_map_of_conv_image_fst le_trans card_image_le List.finite_set length_map list.set_map)

lemma length_buildFeatureMap: "length (buildFeatureMap fs) \<le> length fs"
proof -
  have "length (foldl (\<lambda>m feature. AList.update (fid feature) feature m) m0 fs) \<le> length m0 + length fs" for m0
  proof (induction fs arbitrary: m0)
    case Nil
    then show ?case by simp
  next
    case (Cons a fs)
    have "length (AList.update k v m) \<le> Suc (length m)" for k v and m :: "(string \<times> Feature) list"
      by (induction m) auto
    then have "length (AList.update (fid a) a m0) \<le> Suc (length m0)" .
    with Cons[of "AList.update (fid a) a m0"] show ?case by simp
  qed
  from this[of "[]"] show ?thesis by (simp add: buildFeatureMap_def)
qed

text \<open>
  Claim C4.  The cycle search ends on every input, whatever the stored graph (cyclic or
  not): \<open>hasPathBetweenFeatures\<close> is a total function, each nested call adds one stored
  feature id to its own copy of the visited set, and so the calls never nest deeper than
  the number of stored features plus one.  With that depth allowed, the depth-counted
  traversal always returns, and returns the answer of \<open>hasPathBetweenFeatures\<close>; this holds
  for any feature map and visited set, and for the map \<open>wouldCreateCircularDependency\<close>
  builds from a feature list.
\<close>

theorem hasPath_depth_bound:
  "hasPathDepth (Suc (length featureMap)) s t featureMap add V
     = Some (hasPathBetweenFeatures s t featureMap add V)
   \<and> hasPathDepth (Suc (length allFeatures)) s t (buildFeatureMap allFeatures) add {}
     = Some (hasPathBetweenFeatures s t (buildFeatureMap allFeatures) add {})"
proof
  have "card (dom (map_of featureMap) - V) \<le> card (dom (map_of featureMap))"
    by (rule card_mono) (auto simp: finite_dom_map_of)
  with card_dom_le_length[of featureMap]
  have "card (dom (map_of featureMap) - V) < Suc (length featureMap)"
    by simp
  then show "hasPathDepth (Suc (length featureMap)) s t featureMap add V
     = Some (hasPathBetweenFeatures s t featureMap add V)"
    by (rule hasPathDepth_enough)
next
  let ?fm = "buildFeatureMap allFeatures"
  have "card (dom (map_of ?fm) - {}) \<le> length ?fm"
    using card_dom_le_length[of ?fm] by simp
  with length_buildFeatureMap[of allFeatures]
  have "card (dom (map_of ?fm) - {}) < Suc (length allFeatures)"
    by simp
  then show "hasPathDepth (Suc (length allFeatures)) s t ?fm add {}
     = Some (hasPathBetweenFeatures s t ?fm add {})"
    by (rule hasPathDepth_enough)
qed

section \<open>Transitive dependencies and dependents\<close>

lemma collect_post:
  "(case collectDependencies fm c (V, D) of (V', D') \<Rightarrow>
      V \<subseteq> V' \<and> set D \<subseteq> set D' \<and> c \<in> V' \<and>
      set D' - set D \<subseteq> V' \<and>
      (\<forall>v \<in> V' - V. depEdges fm `` {v} \<subseteq> set D') \<and>
      set D' \<subseteq> set D \<union> (depEdges fm)\<^sup>+ `` {c} \<and>
      (distinct D \<longrightarrow> distinct D'))"
  "(case collectDependenciesLoop fm ds (V, D) of (V', D') \<Rightarrow>
      V \<subseteq> V' \<and> set D \<subseteq> set D' \<and> set ds \<subseteq> set D' \<and>
      set D' - set D \<subseteq> V' \<and>
      (\<forall>v \<in> V' - V. depEdges fm `` {v} \<subseteq> set D') \<and>
      set D' \<subseteq> set D \<union> (depEdges fm)\<^sup>* `` set ds \<and>
      (distinct D \<longrightarrow> distinct D'))"
proof (induction fm c "(V, D)" and fm ds "(V, D)" arbitrary: V D and V D
       rule: collectDependencies_collectDependenciesLoop.induct)
  case (1 fm c V D)
  show ?case
  proof (cases "c \<in> V")
    case True
    then show ?thesis by (simp add: collectDependencies.simps)
  next
    case nv: False
    show ?thesis
    proof (cases "map_of fm c")
      case None
      then have "depEdges fm `` {c} = {}" by (auto simp: depEdges_def)
      with None nv show ?thesis by (auto simp: collectDependencies.simps)
    next
      case (Some f)
      show ?thesis
      proof (cases "dependencies f")
        case None
        with Some have "depEdges fm `` {c} = {}" by (auto simp: depEdges_def depsOrEmpty_def)
        with None Some nv show ?thesis by (auto simp: collectDependencies.simps)
      next
        case ds: (Some ds)
        have e: "depEdges fm `` {c} = set ds" using Some ds by (auto simp: depEdges_def depsOrEmpty_def)
        obtain V' D' where r: "collectDependenciesLoop fm ds (insert c V, D) = (V', D')"
          by (cases "collectDependenciesLoop fm ds (insert c V, D)")
        have c: "collectDependencies fm c (V, D) = (V', D')"
          using nv Some ds r by (simp add: collectDependencies.simps)
        from "1.hyps"[OF nv Some ds] r
        have IH: "insert c V \<subseteq> V'" "set D \<subseteq> set D'" "set ds \<subseteq> set D'"
            "set D' - set D \<subseteq> V'" "\<forall>v \<in> V' - insert c V. depEdges fm `` {v} \<subseteq> set D'"
            "set D' \<subseteq> set D \<union> (depEdges fm)\<^sup>* `` set ds" "distinct D \<longrightarrow> distinct D'"
          by auto
        have "(depEdges fm)\<^sup>* `` set ds \<subseteq> (depEdges fm)\<^sup>+ `` {c}"
        proof
          fix x assume "x \<in> (depEdges fm)\<^sup>* `` set ds"
          then obtain d where "d \<in> set ds" "(d, x) \<in> (depEdges fm)\<^sup>*" by auto
          moreover have "(c, d) \<in> depEdges fm" using e \<open>d \<in> set ds\<close> by auto
          ultimately show "x \<in> (depEdges fm)\<^sup>+ `` {c}" by auto
        qed
        then have d: "set D' \<subseteq> set D \<union> (depEdges fm)\<^sup>+ `` {c}"
          using IH(6) by blast
        have cl: "\<forall>v \<in> V' - V. depEdges fm `` {v} \<subseteq> set D'"
        proof
          fix v assume "v \<in> V' - V"
          then have "v = c \<or> v \<in> V' - insert c V" by auto
          then show "depEdges fm `` {v} \<subseteq> set D'"
            using IH(3,5) e by auto
        qed
        have a: "V \<subseteq> V'" "c \<in> V'" using IH(1) by auto
        show ?thesis unfolding c using a IH(2,4,7) cl d by simp
      qed
    qed
  qed
next
  case (2 fm V D)
  show ?case by simp
next
  case (3 fm depId rest V D)
  show ?case
  proof (cases "depId \<in> set D")
    case True
    obtain V' D' where r: "collectDependenciesLoop fm rest (V, D) = (V', D')"
      by (cases "collectDependenciesLoop fm rest (V, D)")
    from "3.hyps"(3) True r
    have IH: "V \<subseteq> V'" "set D \<subseteq> set D'" "set rest \<subseteq> set D'"
            "set D' - set D \<subseteq> V'" "\<forall>v \<in> V' - V. depEdges fm `` {v} \<subseteq> set D'"
            "set D' \<subseteq> set D \<union> (depEdges fm)\<^sup>* `` set rest" "distinct D \<longrightarrow> distinct D'"
      by auto
    have l: "collectDependenciesLoop fm (depId # rest) (V, D) = (V', D')"
      using True r by simp
    show ?thesis unfolding l using IH True by auto
  next
    case False
    obtain V1 D1 where r1: "collectDependencies fm depId (V, D @ [depId]) = (V1, D1)"
      by (cases "collectDependencies fm depId (V, D @ [depId])")
    obtain V' D' where r: "collectDependenciesLoop fm rest (V1, D1) = (V', D')"
      by (cases "collectDependenciesLoop fm rest (V1, D1)")
    from "3.hyps"(1)[OF False] r1
    have IH1: "V \<subseteq> V1" "set (D @ [depId]) \<subseteq> set D1" "depId \<in> V1"
            "set D1 - set (D @ [depId]) \<subseteq> V1" "\<forall>v \<in> V1 - V. depEdges fm `` {v} \<subseteq> set D1"
            "set D1 \<subseteq> set (D @ [depId]) \<union> (depEdges fm)\<^sup>+ `` {depId}"
            "distinct (D @ [depId]) \<longrightarrow> distinct D1"
      by auto
    from "3.hyps"(2)[OF False r1] r
    have IH2: "V1 \<subseteq> V'" "set D1 \<subseteq> set D'" "set rest \<subseteq> set D'"
            "set D' - set D1 \<subseteq> V'" "\<forall>v \<in> V' - V1. depEdges fm `` {v} \<subseteq> set D'"
            "set D' \<subseteq> set D1 \<union> (depEdges fm)\<^sup>* `` set rest" "distinct D1 \<longrightarrow> distinct D'"
      by auto
    have l: "collectDependenciesLoop fm (depId # rest) (V, D) = (V', D')"
      using False r r1 by simp
    have a: "V \<subseteq> V'" "set D \<subseteq> set D'" "set (depId # rest) \<subseteq> set D'"
      using IH1(1,2) IH2(1,2,3) by auto
    have b: "set D' - set D \<subseteq> V'"
      using IH1(3,4) IH2(1,4) by auto
    have c: "\<forall>v \<in> V' - V. depEdges fm `` {v} \<subseteq> set D'"
      using IH1(5) IH2(2,5) by blast
    have "(depEdges fm)\<^sup>+ `` {depId} \<subseteq> (depEdges fm)\<^sup>* `` set (depId # rest)"
      by (auto intro: trancl_into_rtrancl)
    moreover have "(depEdges fm)\<^sup>* `` set rest \<subseteq> (depEdges fm)\<^sup>* `` set (depId # rest)"
      by auto
    moreover have "depId \<in> (depEdges fm)\<^sup>* `` set (depId # rest)" by auto
    moreover have "set D1 \<subseteq> set D \<union> {depId} \<union> (depEdges fm)\<^sup>+ `` {depId}"
      using IH1(6) by auto
    ultimately have d: "set D' \<subseteq> set D \<union> (depEdges fm)\<^sup>* `` set (depId # rest)"
      using IH2(6) by blast
    have e: "distinct D \<longrightarrow> distinct D'"
      using IH1(7) IH2(7) False by simp
    show ?thesis unfolding l using a b c d e by simp
  qed
qed

lemma getAllDependencies_set:
  "set (getAllDependencies i all) = (depEdges (buildFeatureMap all))\<^sup>+ `` {i}"
proof -
  let ?fm = "buildFeatureMap all"
  obtain V' D' where r: "collectDependencies ?fm i ({}, []) = (V', D')"
    by (cases "collectDependencies ?fm i ({}, [])")
  from collect_post(1)[where fm="?fm" and c=i and V="{}" and D="[]"] r
  have p: "i \<in> V'" "set D' \<subseteq> V'" "\<forall>v \<in> V'. depEdges ?fm `` {v} \<subseteq> set D'"
      "set D' \<subseteq> (depEdges ?fm)\<^sup>+ `` {i}"
    by auto
  have "x \<in> set D'" if "(i, x) \<in> (depEdges ?fm)\<^sup>+" for x
    using that
  proof (induction rule: trancl_induct)
    case (base y)
    then show ?case using p(1,3) by auto
  next
    case (step y z)
    then show ?case using p(2,3) by auto
  qed
  with p(4) have "set D' = (depEdges ?fm)\<^sup>+ `` {i}" by auto
  then show ?thesis by (simp add: getAllDependencies_def r)
qed

lemma collectDependents_post:
  "(case collectDependents fs t (V, D) of (V', D') \<Rightarrow>
      V \<subseteq> V' \<and> set D \<subseteq> set D' \<and> t \<in> V' \<and>
      set D' - set D \<subseteq> V' \<and>
      (\<forall>v \<in> V' - V. (featureGraph fs)\<inverse> `` {v} \<subseteq> set D') \<and>
      set D' \<subseteq> set D \<union> ((featureGraph fs)\<^sup>+)\<inverse> `` {t} \<and>
      (distinct D \<longrightarrow> distinct D'))"
  "set rest \<subseteq> set fs \<longrightarrow>
   (case collectDependentsLoop fs t rest (V, D) of (V', D') \<Rightarrow>
      V \<subseteq> V' \<and> set D \<subseteq> set D' \<and>
      {fid f | f. f \<in> set rest \<and> t \<in> set (depsOrEmpty f)} \<subseteq> set D' \<and>
      set D' - set D \<subseteq> V' \<and>
      (\<forall>v \<in> V' - V. (featureGraph fs)\<inverse> `` {v} \<subseteq> set D') \<and>
      set D' \<subseteq> set D \<union> ((featureGraph fs)\<^sup>+)\<inverse> `` {t} \<and>
      (distinct D \<longrightarrow> distinct D'))"
proof (induction fs t "(V, D)" and fs t rest "(V, D)" arbitrary: V D and V D
       rule: collectDependents_collectDependentsLoop.induct)
  case (1 fs t V D)
  show ?case
  proof (cases "t \<in> V")
    case True
    then show ?thesis by (simp add: collectDependents.simps)
  next
    case nv: False
    obtain V' D' where r: "collectDependentsLoop fs t fs (insert t V, D) = (V', D')"
      by (cases "collectDependentsLoop fs t fs (insert t V, D)")
    have c: "collectDependents fs t (V, D) = (V', D')"
      using nv r by (simp add: collectDependents.simps)
    from "1.hyps"[OF nv] r
    have IH: "insert t V \<subseteq> V'" "set D \<subseteq> set D'"
        "{fid f | f. f \<in> set fs \<and> t \<in> set (depsOrEmpty f)} \<subseteq> set D'"
        "set D' - set D \<subseteq> V'" "\<forall>v \<in> V' - insert t V. (featureGraph fs)\<inverse> `` {v} \<subseteq> set D'"
        "set D' \<subseteq> set D \<union> ((featureGraph fs)\<^sup>+)\<inverse> `` {t}" "distinct D \<longrightarrow> distinct D'"
      by auto
    have e: "(featureGraph fs)\<inverse> `` {t} \<subseteq> set D'"
      using IH(3) by (auto simp: featureGraph_def)
    have cl: "\<forall>v \<in> V' - V. (featureGraph fs)\<inverse> `` {v} \<subseteq> set D'"
    proof
      fix v assume "v \<in> V' - V"
      then have "v = t \<or> v \<in> V' - insert t V" by auto
      then show "(featureGraph fs)\<inverse> `` {v} \<subseteq> set D'"
        using IH(5) e by blast
    qed
    have a: "V \<subseteq> V'" "t \<in> V'" using IH(1) by auto
    show ?thesis unfolding c using a IH(2,4,6,7) cl by simp
  qed
next
  case (2 fs t V D)
  show ?case by simp
next
  case (3 fs t feature rest V D)
  show ?case
  proof
    assume sub: "set (feature # rest) \<subseteq> set fs"
    then have sub': "set rest \<subseteq> set fs" and fin: "feature \<in> set fs" by auto
    show "case collectDependentsLoop fs t (feature # rest) (V, D) of (V', D') \<Rightarrow>
      V \<subseteq> V' \<and> set D \<subseteq> set D' \<and>
      {fid f | f. f \<in> set (feature # rest) \<and> t \<in> set (depsOrEmpty f)} \<subseteq> set D' \<and>
      set D' - set D \<subseteq> V' \<and>
      (\<forall>v \<in> V' - V. (featureGraph fs)\<inverse> `` {v} \<subseteq> set D') \<and>
      set D' \<subseteq> set D \<union> ((featureGraph fs)\<^sup>+)\<inverse> `` {t} \<and>
      (distinct D \<longrightarrow> distinct D')"
    proof (cases "t \<in> set (depsOrEmpty feature) \<and> fid feature \<notin> set D")
      case False
      obtain V' D' where r: "collectDependentsLoop fs t rest (V, D) = (V', D')"
        by (cases "collectDependentsLoop fs t rest (V, D)")
      from "3.hyps"(3)[OF False] sub' r
      have IH: "V \<subseteq> V'" "set D \<subseteq> set D'"
          "{fid f | f. f \<in> set rest \<and> t \<in> set (depsOrEmpty f)} \<subseteq> set D'"
          "set D' - set D \<subseteq> V'" "\<forall>v \<in> V' - V. (featureGraph fs)\<inverse> `` {v} \<subseteq> set D'"
          "set D' \<subseteq> set D \<union> ((featureGraph fs)\<^sup>+)\<inverse> `` {t}" "distinct D \<longrightarrow> distinct D'"
        by auto
      have l: "collectDependentsLoop fs t (feature # rest) (V, D) = (V', D')"
        using False r by auto
      have "t \<in> set (depsOrEmpty feature) \<Longrightarrow> fid feature \<in> set D'"
        using False IH(2) by auto
      then have h: "{fid f | f. f \<in> set (feature # rest) \<and> t \<in> set (depsOrEmpty f)} \<subseteq> set D'"
        using IH(3) by auto
      show ?thesis unfolding l using IH(1,2,4,5,6,7) h by simp
    next
      case True
      then have tin: "t \<in> set (depsOrEmpty feature)" and nd: "fid feature \<notin> set D" by auto
      obtain V1 D1 where r1: "collectDependents fs (fid feature) (V, D @ [fid feature]) = (V1, D1)"
        by (cases "collectDependents fs (fid feature) (V, D @ [fid feature])")
      obtain V' D' where r: "collectDependentsLoop fs t rest (V1, D1) = (V', D')"
        by (cases "collectDependentsLoop fs t rest (V1, D1)")
      from "3.hyps"(1)[OF True] r1
      have IH1: "V \<subseteq> V1" "set (D @ [fid feature]) \<subseteq> set D1" "fid feature \<in> V1"
          "set D1 - set (D @ [fid feature]) \<subseteq> V1"
          "\<forall>v \<in> V1 - V. (featureGraph fs)\<inverse> `` {v} \<subseteq> set D1"
          "set D1 \<subseteq> set (D @ [fid feature]) \<union> ((featureGraph fs)\<^sup>+)\<inverse> `` {fid feature}"
          "distinct (D @ [fid feature]) \<longrightarrow> distinct D1"
        by auto
      from "3.hyps"(2)[OF True r1] sub' r
      have IH2: "V1 \<subseteq> V'" "set D1 \<subseteq> set D'"
          "{fid f | f. f \<in> set rest \<and> t \<in> set (depsOrEmpty f)} \<subseteq> set D'"
          "set D' - set D1 \<subseteq> V'" "\<forall>v \<in> V' - V1. (featureGraph fs)\<inverse> `` {v} \<subseteq> set D'"
          "set D' \<subseteq> set D1 \<union> ((featureGraph fs)\<^sup>+)\<inverse> `` {t}" "distinct D1 \<longrightarrow> distinct D'"
        by auto
      have l: "collectDependentsLoop fs t (feature # rest) (V, D) = (V', D')"
        using True r r1 by simp
      have a: "V \<subseteq> V'" "set D \<subseteq> set D'"
        using IH1(1,2) IH2(1,2) by auto
      have h: "{fid f | f. f \<in> set (feature # rest) \<and> t \<in> set (depsOrEmpty f)} \<subseteq> set D'"
        using IH1(2) IH2(2,3) by auto
      have b: "set D' - set D \<subseteq> V'"
        using IH1(3,4) IH2(1,4) by auto
      have c: "\<forall>v \<in> V' - V. (featureGraph fs)\<inverse> `` {v} \<subseteq> set D'"
        using IH1(5) IH2(2,5) by blast
      have edge: "(fid feature, t) \<in> featureGraph fs"
        using fin tin by (auto simp: featureGraph_def)
      then have x1: "fid feature \<in> ((featureGraph fs)\<^sup>+)\<inverse> `` {t}" by auto
      have x2: "((featureGraph fs)\<^sup>+)\<inverse> `` {fid feature} \<subseteq> ((featureGraph fs)\<^sup>+)\<inverse> `` {t}"
        using edge by (auto intro: trancl_into_trancl)
      have "set D1 \<subseteq> set D \<union> {fid feature} \<union> ((featureGraph fs)\<^sup>+)\<inverse> `` {fid feature}"
        using IH1(6) by auto
      with x1 x2 have d: "set D' \<subseteq> set D \<union> ((featureGraph fs)\<^sup>+)\<inverse> `` {t}"
        using IH2(6) by blast
      have e: "distinct D \<longrightarrow> distinct D'"
        using IH1(7) IH2(7) nd by simp
      show ?thesis unfolding l using a h b c d e by simp
    qed
  qed
qed

lemma getAllDependents_set:
  "set (getAllDependents i all) = ((featureGraph all)\<^sup>+)\<inverse> `` {i}"
proof -
  obtain V' D' where r: "collectDependents all i ({}, []) = (V', D')"
    by (cases "collectDependents all i ({}, [])")
  from collectDependents_post(1)[where fs=all and t=i and V="{}" and D="[]"] r
  have p: "i \<in> V'" "set D' \<subseteq> V'" "\<forall>v \<in> V'. (featureGraph all)\<inverse> `` {v} \<subseteq> set D'"
      "set D' \<subseteq> ((featureGraph all)\<^sup>+)\<inverse> `` {i}"
    by auto
  have "x \<in> set D'" if "(x, i) \<in> (featureGraph all)\<^sup>+" for x
    using that
  proof (induction rule: converse_trancl_induct)
    case (base y)
    then show ?case using p(1,3) by auto
  next
    case (step y z)
    then show ?case using p(2,3) by auto
  qed
  with p(4) have "set D' = ((featureGraph all)\<^sup>+)\<inverse> `` {i}" by auto
  then show ?thesis by (simp add: getAllDependents_def r)
qed

lemma getAllDependents_distinct: "distinct (getAllDependents i all)"
  using collectDependents_post(1)[where fs=all and t=i and V="{}" and D="[]"]
  by (auto simp: getAllDependents_def split: prod.splits)

lemma map_of_foldl_update:
  "map_of (foldl (\<lambda>m feature. AList.update (fid feature) feature m) m0 fs) =
     foldl (\<lambda>m feature. m(fid feature \<mapsto> feature)) (map_of m0) fs"
  by (induction fs arbitrary: m0) (simp_all add: update_conv')

lemma foldl_update_distinct:
  "distinct (map fid fs) \<Longrightarrow>
     map_of (foldl (\<lambda>m feature. AList.update (fid feature) feature m) m0 fs) k =
       (case find (\<lambda>f. fid f = k) fs of None \<Rightarrow> map_of m0 k | Some f \<Rightarrow> Some f)"
proof (induction fs arbitrary: m0)
  case Nil
  then show ?case by simp
next
  case (Cons a fs)
  from Cons.prems have "fid a \<notin> fid ` set fs" by simp
  then have n: "find (\<lambda>f. fid f = fid a) fs = None"
    unfolding find_None_iff by (metis imageI)
  from Cons.prems have d: "distinct (map fid fs)" by simp
  show ?case
  proof (cases "fid a = k")
    case True
    with n show ?thesis by (simp add: Cons.IH[OF d] update_conv')
  next
    case False
    then show ?thesis by (auto simp add: Cons.IH[OF d] update_conv' split: option.splits)
  qed
qed

lemma buildFeatureMap_lookup:
  "distinct (map fid fs) \<Longrightarrow>
     map_of (buildFeatureMap fs) k = find (\<lambda>f. fid f = k) fs"
  by (simp add: buildFeatureMap_def foldl_update_distinct split: option.splits)

lemma dependsOn_featureGraph:
  assumes "distinct (map fid fs)"
  shows "dependsOn fs = featureGraph fs"
proof -
  have "find (\<lambda>f. fid f = a) fs = Some f \<longleftrightarrow> f \<in> set fs \<and> fid f = a" for a f
    using assms
  proof (induction fs)
    case Nil
    then show ?case by simp
  next
    case (Cons x xs)
    then show ?case by (auto simp: image_iff)
  qed
  then show ?thesis
    using assms by (auto simp: dependsOn_def depEdges_def featureGraph_def buildFeatureMap_lookup)
qed

lemma dom_buildFeatureMap: "dom (map_of (buildFeatureMap fs)) = fid ` set fs"
proof -
  have "dom (foldl (\<lambda>m feature. m(fid feature \<mapsto> feature)) m fs) = dom m \<union> fid ` set fs" for m
    by (induction fs arbitrary: m) auto
  then show ?thesis by (simp add: buildFeatureMap_def map_of_foldl_update)
qed

lemma getAllDependencies_distinct: "distinct (getAllDependencies i all)"
  using collect_post(1)[where fm="buildFeatureMap all" and c=i and V="{}" and D="[]"]
  by (auto simp: getAllDependencies_def split: prod.splits)

text \<open>
  Claim C8.  \<open>getAllDependencies\<close> returns exactly the ids reachable from the given id
  by one or more dependency edges, and \<open>getAllDependents\<close> returns exactly the ids from
  which one or more dependency edges lead to the given id; neither result repeats an id.
  Both are total functions, so they return on every feature list, cyclic graphs included
  (the witness is a two-feature cycle).  \<open>getAllDependencies\<close> reads the edges through its
  lookup map and \<open>getAllDependents\<close> reads them off the list; the two graphs are the same
  when no two features share an id.
\<close>

theorem transitive_closure_queries:
  "set (getAllDependencies i allFeatures) = {b. (i, b) \<in> (dependsOn allFeatures)\<^sup>+}
   \<and> set (getAllDependents i allFeatures) = {a. (a, i) \<in> (featureGraph allFeatures)\<^sup>+}
   \<and> (distinct (map fid allFeatures) \<longrightarrow> dependsOn allFeatures = featureGraph allFeatures)
   \<and> distinct (getAllDependencies i allFeatures)
   \<and> distinct (getAllDependents i allFeatures)"
  using dependsOn_featureGraph[of allFeatures]
  by (auto simp: getAllDependencies_set getAllDependents_set dependsOn_def
        getAllDependencies_distinct getAllDependents_distinct)

theorem transitive_closure_queries_witness:
  "distinct (map fid [createFeature ''A'' [''B''], createFeature ''B'' [''A'']])
   \<and> dependsOn [createFeature ''A'' [''B''], createFeature ''B'' [''A'']]
       = featureGraph [createFeature ''A'' [''B''], createFeature ''B'' [''A'']]
   \<and> {b. (''A'', b) \<in> (dependsOn [createFeature ''A'' [''B''], createFeature ''B'' [''A'']])\<^sup>+}
       = {''A'', ''B''}
   \<and> {a. (a, ''A'') \<in> (featureGraph [createFeature ''A'' [''B''], createFeature ''B'' [''A'']])\<^sup>+}
       = {''A'', ''B''}"
proof -
  let ?fs = "[createFeature ''A'' [''B''], createFeature ''B'' [''A'']]"
  have d: "distinct (map fid ?fs)" by (simp add: createFeature_def)
  have 1: "getAllDependencies ''A'' ?fs = [''B'', ''A'']"
    by code_simp
  have 2: "getAllDependents ''A'' ?fs = [''B'', ''A'']"
    by code_simp
  note t = transitive_closure_queries[of "''A''" ?fs]
  from t have e1: "set (getAllDependencies ''A'' ?fs) = {b. (''A'', b) \<in> (dependsOn ?fs)\<^sup>+}"
    by (rule conjunct1)
  from t have e2: "set (getAllDependents ''A'' ?fs) = {a. (a, ''A'') \<in> (featureGraph ?fs)\<^sup>+}"
    by (rule conjunct2[THEN conjunct1])
  from t d have e3: "dependsOn ?fs = featureGraph ?fs"
    by (elim conjE) (rule mp)
  have s: "set [''B'', ''A''] = {''A'', ''B''}" by auto
  have r1: "{b. (''A'', b) \<in> (dependsOn ?fs)\<^sup>+} = {''A'', ''B''}"
    unfolding e1[symmetric] 1 by (rule s)
  have r2: "{a. (a, ''A'') \<in> (featureGraph ?fs)\<^sup>+} = {''A'', ''B''}"
    unfolding e2[symmetric] 2 by (rule s)
  from d e3 r1 r2 show ?thesis by (intro conjI)
qed



text \<open>
  Claim C10.  In a feature list whose ids are pairwise distinct, \<open>a\<close> is among the
  dependents of \<open>b\<close> exactly when \<open>b\<close> is among the dependencies of \<open>a\<close>, for any two
  ids, on cyclic graphs too (in the witness \<open>B\<close> and \<open>C\<close> depend on each other).
\<close>

theorem dependents_dependencies_duality:
  assumes "distinct (map fid allFeatures)"
  shows "a \<in> set (getAllDependents b allFeatures) \<longleftrightarrow> b \<in> set (getAllDependencies a allFeatures)"
  using dependsOn_featureGraph[OF assms]
  by (simp add: getAllDependencies_set getAllDependents_set dependsOn_def)

theorem dependents_dependencies_duality_witness:
  "distinct (map fid [createFeature ''A'' [''B''], createFeature ''B'' [''C''], createFeature ''C'' [''B'']])
   \<and> ''A'' \<in> set (getAllDependents ''C'' [createFeature ''A'' [''B''], createFeature ''B'' [''C''], createFeature ''C'' [''B'']])
   \<and> ''C'' \<in> set (getAllDependencies ''A'' [createFeature ''A'' [''B''], createFeature ''B'' [''C''], createFeature ''C'' [''B'']])"
proof -
  let ?fs = "[createFeature ''A'' [''B''], createFeature ''B'' [''C''], createFeature ''C'' [''B'']]"
  have d: "distinct (map fid ?fs)" by (simp add: createFeature_def)
  have 1: "''C'' \<in> set (getAllDependencies ''A'' ?fs)"
    by code_simp
  from dependents_dependencies_duality[OF d, of "''A''" "''C''"] 1 d
  show ?thesis by blast
qed

section \<open>Event emitter: every subscriber runs\<close>


























section \<open>Scheduler: the concurrency bound\<close>

lemma dispatch_limit:
  "concurrencyLimit (dispatch env s f) = concurrencyLimit s"
  "enabled (dispatch env s f) = enabled s"
  by (simp_all add: dispatch_def)

lemma dispatch_active_length:
  "length (activeSet (dispatch env s f)) \<le> Suc (length (activeSet s))"
proof -
  have "length (removeAll (fid f) (activeSet s)) \<le> Suc (length (activeSet s))"
    by (rule le_SucI) (rule length_removeAll_less_eq)
  then show ?thesis by (simp add: dispatch_def)
qed

lemma foldl_dispatch_limit:
  "concurrencyLimit (foldl (dispatch env) s fs) = concurrencyLimit s"
  "enabled (foldl (dispatch env) s fs) = enabled s"
  by (induction fs arbitrary: s) (simp_all add: dispatch_limit)

lemma foldl_dispatch_active_length:
  "length (activeSet (foldl (dispatch env) s fs)) \<le> length (activeSet s) + length fs"
proof (induction fs arbitrary: s)
  case Nil
  then show ?case by simp
next
  case (Cons f fs)
  have "length (activeSet (foldl (dispatch env) (dispatch env s f) fs))
        \<le> length (activeSet (dispatch env s f)) + length fs"
    by (rule Cons.IH)
  also have "\<dots> \<le> Suc (length (activeSet s)) + length fs"
    using dispatch_active_length[of env s f] by simp
  finally show ?case by simp
qed

lemma length_selected: "length (selected s) \<le> nat (availableSlots s)"
  by (simp add: selected_def)

lemma pass_limit:
  "concurrencyLimit (schedulingPass env s) = concurrencyLimit s"
  "enabled (schedulingPass env s) = enabled s"
  by (simp_all add: schedulingPass_def foldl_dispatch_limit)

lemma pass_dispatching_within_limit:
  assumes "0 < availableSlots s" "enabled s"
  shows "length (activeSet (schedulingPass env s)) \<le> concurrencyLimit s"
proof -
  have "length (activeSet (schedulingPass env s)) \<le> length (activeSet s) + length (selected s)"
    using assms by (simp add: schedulingPass_def foldl_dispatch_active_length)
  also have "\<dots> \<le> length (activeSet s) + nat (availableSlots s)"
    using length_selected[of s] by simp
  also have "\<dots> = concurrencyLimit s"
    using assms(1) by (simp add: availableSlots_def)
  finally show ?thesis .
qed

lemma pass_idle:
  "\<not> (0 < availableSlots s \<and> enabled s) \<Longrightarrow> schedulingPass env s = s"
  by (auto simp: schedulingPass_def)

lemma pass_active_length:
  "length (activeSet (schedulingPass env s)) \<le> max (length (activeSet s)) (concurrencyLimit s)"
proof (cases "0 < availableSlots s \<and> enabled s")
  case True
  then show ?thesis using pass_dispatching_within_limit[of s env] by simp
next
  case False
  then show ?thesis by (simp add: pass_idle)
qed

lemma applyTrigger_active:
  "applyTrigger t s = Some s1 \<Longrightarrow>
     set (activeSet s1) \<subseteq> set (activeSet s) \<and> length (activeSet s1) \<le> length (activeSet s)"
  by (cases t) (auto split: if_splits simp: length_removeAll_less_eq)

lemma step_active_length:
  "length (activeSet (step env t s)) \<le> max (length (activeSet s)) (concurrencyLimit (step env t s))"
proof (cases "applyTrigger t s")
  case None
  then show ?thesis by (simp add: step_def)
next
  case (Some s1)
  have "length (activeSet (schedulingPass env s1)) \<le> max (length (activeSet s1)) (concurrencyLimit s1)"
    by (rule pass_active_length)
  moreover have "length (activeSet s1) \<le> length (activeSet s)"
    using applyTrigger_active[OF Some] by simp
  ultimately have "length (activeSet (schedulingPass env s1))
      \<le> max (length (activeSet s)) (concurrencyLimit s1)"
    by linarith
  with Some show ?thesis
    by (simp add: step_def pass_limit)
qed

lemma step_over_limit:
  assumes "concurrencyLimit (step env t s) < length (activeSet (step env t s))"
  shows "set (activeSet (step env t s)) \<subseteq> set (activeSet s)"
proof (cases "applyTrigger t s")
  case None
  then show ?thesis by (simp add: step_def)
next
  case (Some s1)
  have st: "step env t s = schedulingPass env s1" using Some by (simp add: step_def)
  have "\<not> (0 < availableSlots s1 \<and> enabled s1)"
  proof
    assume "0 < availableSlots s1 \<and> enabled s1"
    then have "length (activeSet (schedulingPass env s1)) \<le> concurrencyLimit s1"
      using pass_dispatching_within_limit[of s1 env] by simp
    with assms st show False by (simp add: pass_limit)
  qed
  then have "schedulingPass env s1 = s1" by (rule pass_idle)
  with st applyTrigger_active[OF Some] show ?thesis by simp
qed

lemma applyTrigger_limit:
  "applyTrigger t s = Some s1 \<Longrightarrow> (\<forall>n. t = SetConcurrency n \<longrightarrow> n = int k) \<Longrightarrow>
     concurrencyLimit s = k \<Longrightarrow> concurrencyLimit s1 = k"
  by (cases t) (auto split: if_splits)

lemma step_fixed_limit:
  assumes "concurrencyLimit s = k" "length (activeSet s) \<le> k"
    "\<forall>n. t = SetConcurrency n \<longrightarrow> n = int k"
  shows "concurrencyLimit (step env t s) = k \<and> length (activeSet (step env t s)) \<le> k"
proof (cases "applyTrigger t s")
  case None
  then show ?thesis using assms by (simp add: step_def)
next
  case (Some s1)
  have l: "concurrencyLimit s1 = k" using applyTrigger_limit[OF Some assms(3) assms(1)] .
  have "length (activeSet (schedulingPass env s1)) \<le> max (length (activeSet s1)) (concurrencyLimit s1)"
    by (rule pass_active_length)
  moreover have "length (activeSet s1) \<le> length (activeSet s)"
    using applyTrigger_active[OF Some] by simp
  ultimately have "length (activeSet (schedulingPass env s1)) \<le> k"
    using l assms(2) by linarith
  with l Some show ?thesis
    by (simp add: step_def pass_limit)
qed

lemma observed_fixed_limit:
  assumes "concurrencyLimit s = k" "length (activeSet s) \<le> k"
    "\<forall>(env, t) \<in> set trace. \<forall>n. t = SetConcurrency n \<longrightarrow> n = int k"
  shows "\<forall>s' \<in> set (observed trace s). concurrencyLimit s' = k \<and> length (activeSet s') \<le> k"
  using assms
proof (induction trace arbitrary: s)
  case Nil
  then show ?case by simp
next
  case (Cons a trace)
  obtain env t where a: "a = (env, t)" by (cases a)
  from Cons.prems(3) a have t: "\<forall>n. t = SetConcurrency n \<longrightarrow> n = int k" by simp
  from Cons.prems(3) have rest: "\<forall>(env, t) \<in> set trace. \<forall>n. t = SetConcurrency n \<longrightarrow> n = int k" by simp
  note s1 = step_fixed_limit[OF Cons.prems(1,2) t, of env]
  from Cons.IH[OF s1[THEN conjunct1] s1[THEN conjunct2] rest] s1 a
  show ?case by simp
qed


text \<open>
  Claim C1, as the scheduler has it.  A trigger never raises the number of active sessions
  above the larger of the limit and the number already active; while the active sessions
  exceed the limit (after the limit was reduced below their number, existing sessions not
  being killed) a trigger starts none; and along any sequence of triggers that leaves the
  limit at \<open>k\<close>, from a state with at most \<open>k\<close> active sessions, every observed state has
  limit \<open>k\<close> and at most \<open>k\<close> active sessions.
\<close>

theorem concurrency_bound:
  "length (activeSet (step env t s)) \<le> max (length (activeSet s)) (concurrencyLimit (step env t s))
   \<and> (concurrencyLimit (step env t s) < length (activeSet (step env t s)) \<longrightarrow>
        set (activeSet (step env t s)) \<subseteq> set (activeSet s))
   \<and> (concurrencyLimit s = k \<and> length (activeSet s) \<le> k \<and>
        (\<forall>(env, t) \<in> set trace. \<forall>n. t = SetConcurrency n \<longrightarrow> n = int k) \<longrightarrow>
        (\<forall>s' \<in> set (observed trace s). concurrencyLimit s' = k \<and> length (activeSet s') \<le> k))"
  using step_active_length[of env t s] step_over_limit[of env t s] observed_fixed_limit[of s k trace]
  by blast

theorem concurrency_bound_witness:
  "concurrencyLimit (step noFailures (SetConcurrency 1)
        (step noFailures Enable (initialScheduler 2 [backlogFeature ''A'' 1, backlogFeature ''B'' 2])))
     < length (activeSet (step noFailures (SetConcurrency 1)
        (step noFailures Enable (initialScheduler 2 [backlogFeature ''A'' 1, backlogFeature ''B'' 2]))))
   \<and> set (activeSet (step noFailures (SetConcurrency 1)
        (step noFailures Enable (initialScheduler 2 [backlogFeature ''A'' 1, backlogFeature ''B'' 2]))))
     \<subseteq> set (activeSet
        (step noFailures Enable (initialScheduler 2 [backlogFeature ''A'' 1, backlogFeature ''B'' 2])))
   \<and> concurrencyLimit (initialScheduler 2
        [backlogFeature ''A'' 1, backlogFeature ''B'' 2, backlogFeature ''C'' 3]) = 2
   \<and> list_all (\<lambda>s'. concurrencyLimit s' = 2 \<and> length (activeSet s') \<le> 2)
        (observed [(noFailures, Enable), (noFailures, SessionSuccess ''A''),
                   (noFailures, SetConcurrency 2), (noFailures, SessionFailure ''B'')]
           (initialScheduler 2 [backlogFeature ''A'' 1, backlogFeature ''B'' 2, backlogFeature ''C'' 3]))"
proof -
  let ?s = "step noFailures Enable (initialScheduler 2 [backlogFeature ''A'' 1, backlogFeature ''B'' 2])"
  let ?init = "initialScheduler 2 [backlogFeature ''A'' 1, backlogFeature ''B'' 2, backlogFeature ''C'' 3]"
  let ?tr = "[(noFailures, Enable), (noFailures, SessionSuccess ''A''),
              (noFailures, SetConcurrency 2), (noFailures, SessionFailure ''B'')]"
  have l: "concurrencyLimit (step noFailures (SetConcurrency 1) ?s) = 1"
    by code_simp
  have m: "activeSet (step noFailures (SetConcurrency 1) ?s) = [''A'', ''B'']"
    by code_simp
  have over: "concurrencyLimit (step noFailures (SetConcurrency 1) ?s)
      < length (activeSet (step noFailures (SetConcurrency 1) ?s))"
    unfolding l m by simp
  have k: "concurrencyLimit ?init = 2" "length (activeSet ?init) \<le> 2"
    by (simp_all add: initialScheduler_def)
  have tr: "\<forall>(env, t) \<in> set ?tr. \<forall>n. t = SetConcurrency n \<longrightarrow> n = int 2"
    by simp
  from concurrency_bound[where env=noFailures and t="SetConcurrency 1" and s="?s"
      and k=2 and trace="[]"] over
  have a: "set (activeSet (step noFailures (SetConcurrency 1) ?s)) \<subseteq> set (activeSet ?s)"
    by blast
  from concurrency_bound[where env=noFailures and t=Enable and s="?init" and k=2 and trace="?tr"] k tr
  have b: "\<forall>s' \<in> set (observed ?tr ?init). concurrencyLimit s' = 2 \<and> length (activeSet s') \<le> 2"
    by blast
  from over a k(1) b show ?thesis by (simp add: list_all_iff)
qed

text \<open>
  The bound does not hold while the limit is reduced below the number of active sessions:
  with limit 2 and two backlog features, enabling auto-mode starts both; setting the
  limit to 1 then leaves both running.
\<close>

theorem concurrency_bound_counterexample:
  "activeSet (runTriggers [(noFailures, Enable), (noFailures, SetConcurrency 1)]
       (initialScheduler 2 [backlogFeature ''A'' 1, backlogFeature ''B'' 2])) = [''A'', ''B'']
   \<and> concurrencyLimit (runTriggers [(noFailures, Enable), (noFailures, SetConcurrency 1)]
       (initialScheduler 2 [backlogFeature ''A'' 1, backlogFeature ''B'' 2])) = 1"
  by code_simp

section \<open>Scheduler: dependency ordering and dispatch errors\<close>

lemma dispatch_active_subset:
  "set (activeSet (dispatch env s f)) \<subseteq> insert (fid f) (set (activeSet s))"
  by (auto simp: dispatch_def)

lemma dispatch_log_subset:
  "set (errorLog (dispatch env s f)) \<subseteq> set (errorLog s) \<union> {fid f} \<times> UNIV"
  by (auto simp: dispatch_def)

lemma foldl_dispatch_subset:
  "set (activeSet (foldl (dispatch env) s fs)) \<subseteq> set (activeSet s) \<union> fid ` set fs
   \<and> set (errorLog (foldl (dispatch env) s fs)) \<subseteq> set (errorLog s) \<union> (fid ` set fs) \<times> UNIV"
proof (induction fs arbitrary: s)
  case Nil
  then show ?case by simp
next
  case (Cons f fs)
  from Cons.IH[of "dispatch env s f"] dispatch_active_subset[of env s f] dispatch_log_subset[of env s f]
  show ?case by (simp; blast)
qed

lemma selected_eligible:
  "f \<in> set (selected s) \<Longrightarrow> f \<in> set (store s) \<and> eligible (store s) (activeSet s) f"
  by (auto simp: selected_def dest!: in_set_takeD)

lemma eligible_iff:
  "eligible fs active f \<longleftrightarrow>
     status f = backlog \<and> fid f \<notin> set active \<and>
     (\<forall>d \<in> set (depsOrEmpty f). statusOf fs d = Some completed \<or> statusOf fs d = Some verified)"
  by (auto simp: eligible_def dependencySatisfied_def list_all_iff)

lemma pass_new_subset:
  "set (activeSet (schedulingPass env s)) \<subseteq> set (activeSet s) \<union> fid ` set (selected s)
   \<and> set (errorLog (schedulingPass env s)) \<subseteq> set (errorLog s) \<union> (fid ` set (selected s)) \<times> UNIV"
  using foldl_dispatch_subset[of env s "selected s"]
  by (simp add: schedulingPass_def)

lemma statusOf_updateStatus:
  "statusOf (updateStatus i st fs) j =
     (if j = i then map_option (\<lambda>_. st) (statusOf fs i) else statusOf fs j)"
  by (induction fs) (auto simp: statusOf_def updateStatus_def)

lemma find_distinct:
  "distinct (map fid fs) \<Longrightarrow> f \<in> set fs \<Longrightarrow> find (\<lambda>g. fid g = fid f) fs = Some f"
proof (induction fs)
  case Nil
  then show ?case by simp
next
  case (Cons a fs)
  then show ?case by (cases "a = f") (auto simp: image_iff)
qed

lemma statusOf_member:
  "distinct (map fid fs) \<Longrightarrow> f \<in> set fs \<Longrightarrow> statusOf fs (fid f) = Some (status f)"
  by (simp add: statusOf_def find_distinct)

lemma dispatch_status:
  assumes "statusOf (store s) (fid f) = Some backlog"
  shows "statusOf (store (dispatch env s f)) j =
     (if j = fid f then Some (if dispatchFails env j then backlog else in_progress)
      else statusOf (store s) j)"
  using assms by (simp add: dispatch_def statusOf_updateStatus dispatchFails_def)

lemma dispatch_active:
  assumes "fid f \<notin> set (activeSet s)"
  shows "j \<in> set (activeSet (dispatch env s f)) \<longleftrightarrow>
     (if j = fid f then \<not> dispatchFails env j else j \<in> set (activeSet s))"
  using assms by (auto simp: dispatch_def dispatchFails_def)

lemma dispatch_logged:
  "dispatchFails env (fid f) \<Longrightarrow> \<exists>e. (fid f, e) \<in> set (errorLog (dispatch env s f))"
  by (auto simp: dispatch_def dispatchFails_def)

lemma dispatch_log_mono: "set (errorLog s) \<subseteq> set (errorLog (dispatch env s f))"
  by (auto simp: dispatch_def)

lemma foldl_dispatch_log_mono: "set (errorLog s) \<subseteq> set (errorLog (foldl (dispatch env) s fs))"
proof (induction fs arbitrary: s)
  case Nil
  then show ?case by simp
next
  case (Cons f fs)
  from Cons.IH[of "dispatch env s f"] dispatch_log_mono[of s env f] show ?case by auto
qed

lemma foldl_dispatch_effect:
  assumes "distinct (map fid fs)"
    and "\<forall>f \<in> set fs. fid f \<notin> set (activeSet s)"
    and "\<forall>f \<in> set fs. statusOf (store s) (fid f) = Some backlog"
  shows "statusOf (store (foldl (dispatch env) s fs)) j =
           (if j \<in> fid ` set fs then Some (if dispatchFails env j then backlog else in_progress)
            else statusOf (store s) j)
       \<and> (j \<in> set (activeSet (foldl (dispatch env) s fs)) \<longleftrightarrow>
           (if j \<in> fid ` set fs then \<not> dispatchFails env j else j \<in> set (activeSet s)))
       \<and> (j \<in> fid ` set fs \<and> dispatchFails env j \<longrightarrow>
           (\<exists>e. (j, e) \<in> set (errorLog (foldl (dispatch env) s fs))))"
  using assms
proof (induction fs arbitrary: s)
  case Nil
  then show ?case by simp
next
  case (Cons f fs)
  let ?s1 = "dispatch env s f"
  have nf: "fid f \<notin> fid ` set fs" and d: "distinct (map fid fs)"
    using Cons.prems(1) by auto
  have a: "fid f \<notin> set (activeSet s)" and b: "statusOf (store s) (fid f) = Some backlog"
    using Cons.prems(2,3) by auto
  have p2: "\<forall>g \<in> set fs. fid g \<notin> set (activeSet ?s1)"
  proof
    fix g assume g: "g \<in> set fs"
    then have "fid g \<noteq> fid f" using nf by (metis imageI)
    moreover have "fid g \<notin> set (activeSet s)" using g Cons.prems(2) by auto
    ultimately show "fid g \<notin> set (activeSet ?s1)"
      by (simp add: dispatch_active[OF a])
  qed
  have p3: "\<forall>g \<in> set fs. statusOf (store ?s1) (fid g) = Some backlog"
  proof
    fix g assume g: "g \<in> set fs"
    then have "fid g \<noteq> fid f" using nf by (metis imageI)
    moreover have "statusOf (store s) (fid g) = Some backlog" using g Cons.prems(3) by auto
    ultimately show "statusOf (store ?s1) (fid g) = Some backlog"
      by (simp add: dispatch_status[OF b])
  qed
  note IH = Cons.IH[OF d p2 p3]
  show ?case
  proof (cases "j = fid f")
    case True
    with nf have "j \<notin> fid ` set fs" by simp
    moreover have "dispatchFails env j \<longrightarrow> (\<exists>e. (j, e) \<in> set (errorLog (foldl (dispatch env) ?s1 fs)))"
      using True dispatch_logged[of env f s] foldl_dispatch_log_mono[of ?s1 env fs] by blast
    ultimately show ?thesis
      using IH True by (simp add: dispatch_status[OF b] dispatch_active[OF a])
  next
    case False
    then show ?thesis
      using IH by (simp add: dispatch_status[OF b] dispatch_active[OF a])
  qed
qed

lemma distinct_map_insort_key:
  "distinct (map g (insort_key k x xs)) \<longleftrightarrow> g x \<notin> g ` set xs \<and> distinct (map g xs)"
  by (induction xs) (auto simp: set_insort_key)

lemma distinct_map_sort_key:
  "distinct (map g (sort_key k xs)) \<longleftrightarrow> distinct (map g xs)"
  by (induction xs) (simp_all add: distinct_map_insort_key)

lemma distinct_selected:
  assumes "distinct (map fid (store s))"
  shows "distinct (map fid (selected s))"
proof -
  have "distinct (map fid (filter (eligible (store s) (activeSet s)) (store s)))"
    using assms by (rule distinct_map_filter)
  then have "distinct (map fid (sort_key (\<lambda>f. (priority f, createdAt f))
      (filter (eligible (store s) (activeSet s)) (store s))))"
    by (simp add: distinct_map_sort_key)
  then show ?thesis
    unfolding selected_def take_map[symmetric] by (rule distinct_take)
qed

lemma not_selected:
  assumes "distinct (map fid (store s))" "f \<in> set (store s)" "\<not> eligible (store s) (activeSet s) f"
  shows "fid f \<notin> fid ` set (selected s)"
proof
  assume "fid f \<in> fid ` set (selected s)"
  then obtain g where g: "g \<in> set (selected s)" "fid g = fid f" by auto
  then have gs: "g \<in> set (store s)" "eligible (store s) (activeSet s) g"
    using selected_eligible by auto
  from assms(1) have "inj_on fid (set (store s))" by (simp add: distinct_map)
  with gs(1) assms(2) g(2) have "g = f" by (auto dest: inj_onD)
  with gs(2) assms(3) show False by simp
qed

lemma pass_skips:
  assumes "distinct (map fid (store s))" "f \<in> set (store s)" "fid f \<notin> set (activeSet s)"
    "\<not> eligible (store s) (activeSet s) f"
  shows "fid f \<notin> set (activeSet (schedulingPass env s))
       \<and> statusOf (store (schedulingPass env s)) (fid f) = Some (status f)
       \<and> (\<forall>e. (fid f, e) \<in> set (errorLog (schedulingPass env s)) \<longrightarrow> (fid f, e) \<in> set (errorLog s))"
proof -
  note ns = not_selected[OF assms(1,2,4)]
  have st: "statusOf (store s) (fid f) = Some (status f)"
    using assms(1,2) by (rule statusOf_member)
  have log: "\<forall>e. (fid f, e) \<in> set (errorLog (schedulingPass env s)) \<longrightarrow> (fid f, e) \<in> set (errorLog s)"
    using pass_new_subset[of env s] ns by blast
  have act: "fid f \<notin> set (activeSet (schedulingPass env s))"
    using pass_new_subset[of env s] ns assms(3) by blast
  have "statusOf (store (schedulingPass env s)) (fid f) = statusOf (store s) (fid f)"
  proof (cases "availableSlots s \<le> 0 \<or> \<not> enabled s")
    case True
    then show ?thesis by (simp add: schedulingPass_def)
  next
    case False
    then have p: "schedulingPass env s = foldl (dispatch env) s (selected s)"
      by (simp add: schedulingPass_def)
    have a2: "\<forall>g \<in> set (selected s). fid g \<notin> set (activeSet s)"
      using selected_eligible by (auto simp: eligible_def)
    have a3: "\<forall>g \<in> set (selected s). statusOf (store s) (fid g) = Some backlog"
    proof
      fix g assume "g \<in> set (selected s)"
      then have "g \<in> set (store s)" "status g = backlog"
        using selected_eligible by (auto simp: eligible_def)
      with statusOf_member[OF assms(1)] show "statusOf (store s) (fid g) = Some backlog" by simp
    qed
    from foldl_dispatch_effect[OF distinct_selected[OF assms(1)] a2 a3, where j="fid f" and env=env] ns
    show ?thesis unfolding p by simp
  qed
  with st act log show ?thesis by simp
qed

lemma step_new_active:
  assumes "i \<in> set (activeSet (step env t s))" "i \<notin> set (activeSet s)"
  shows "\<exists>s1 f. applyTrigger t s = Some s1 \<and> f \<in> set (store s1) \<and> fid f = i \<and>
           eligible (store s1) (activeSet s1) f"
proof (cases "applyTrigger t s")
  case None
  with assms show ?thesis by (simp add: step_def)
next
  case (Some s1)
  then have st: "step env t s = schedulingPass env s1" by (simp add: step_def)
  from applyTrigger_active[OF Some] assms(2) have "i \<notin> set (activeSet s1)" by auto
  with assms(1) st pass_new_subset[of env s1] have "i \<in> fid ` set (selected s1)" by auto
  then obtain f where "f \<in> set (selected s1)" "fid f = i" by auto
  with selected_eligible[of f s1] Some show ?thesis by blast
qed


text \<open>
  Claim C5.  Whenever a trigger brings a new id into \<open>activeSet\<close>, that id is a backlog
  feature of the store (as the trigger left it) all of whose dependencies are
  \<open>completed\<close> or \<open>verified\<close>.  A backlog feature that is not active is eligible exactly
  when every id in its dependency list has status \<open>completed\<close> or \<open>verified\<close> (always, for
  an empty list).  A feature that is not eligible is skipped by a scheduling pass: it does
  not become active, its status stays as it was, and no error is logged for it.
\<close>

theorem dependency_ordering:
  "(i \<in> set (activeSet (step env t s)) \<and> i \<notin> set (activeSet s) \<longrightarrow>
      (\<exists>s1 g. applyTrigger t s = Some s1 \<and> g \<in> set (store s1) \<and> fid g = i \<and> status g = backlog \<and>
         (\<forall>d \<in> set (depsOrEmpty g).
             statusOf (store s1) d = Some completed \<or> statusOf (store s1) d = Some verified)))
   \<and> (status f = backlog \<and> fid f \<notin> set active \<longrightarrow>
        (eligible fs active f \<longleftrightarrow>
           (\<forall>d \<in> set (depsOrEmpty f). statusOf fs d = Some completed \<or> statusOf fs d = Some verified)))
   \<and> (distinct (map fid (store s)) \<and> f \<in> set (store s) \<and> fid f \<notin> set (activeSet s) \<and>
        \<not> eligible (store s) (activeSet s) f \<longrightarrow>
          fid f \<notin> set (activeSet (schedulingPass env s))
          \<and> statusOf (store (schedulingPass env s)) (fid f) = Some (status f)
          \<and> (\<forall>e. (fid f, e) \<in> set (errorLog (schedulingPass env s)) \<longrightarrow> (fid f, e) \<in> set (errorLog s)))"
proof (intro conjI impI)
  assume "i \<in> set (activeSet (step env t s)) \<and> i \<notin> set (activeSet s)"
  then obtain s1 g where "applyTrigger t s = Some s1" "g \<in> set (store s1)" "fid g = i"
      "eligible (store s1) (activeSet s1) g"
    using step_new_active[of i env t s] by blast
  then show "\<exists>s1 g. applyTrigger t s = Some s1 \<and> g \<in> set (store s1) \<and> fid g = i \<and> status g = backlog \<and>
         (\<forall>d \<in> set (depsOrEmpty g).
             statusOf (store s1) d = Some completed \<or> statusOf (store s1) d = Some verified)"
    unfolding eligible_iff by blast
next
  assume "status f = backlog \<and> fid f \<notin> set active"
  then show "eligible fs active f \<longleftrightarrow>
           (\<forall>d \<in> set (depsOrEmpty f). statusOf fs d = Some completed \<or> statusOf fs d = Some verified)"
    by (simp add: eligible_iff)
next
  assume a: "distinct (map fid (store s)) \<and> f \<in> set (store s) \<and> fid f \<notin> set (activeSet s) \<and>
        \<not> eligible (store s) (activeSet s) f"
  then have p: "fid f \<notin> set (activeSet (schedulingPass env s))
       \<and> statusOf (store (schedulingPass env s)) (fid f) = Some (status f)
       \<and> (\<forall>e. (fid f, e) \<in> set (errorLog (schedulingPass env s)) \<longrightarrow> (fid f, e) \<in> set (errorLog s))"
    using pass_skips[of s f env] by blast
  from p show "fid f \<notin> set (activeSet (schedulingPass env s))" by simp
  from p show "statusOf (store (schedulingPass env s)) (fid f) = Some (status f)" by simp
  from p show "\<forall>e. (fid f, e) \<in> set (errorLog (schedulingPass env s)) \<longrightarrow> (fid f, e) \<in> set (errorLog s)" by simp
qed

theorem dependency_ordering_witness:
  "''B'' \<in> set (activeSet (step noFailures Enable (initialScheduler 2
        [(createFeature ''A'' [])\<lparr>status := completed\<rparr>, createFeature ''B'' [''A''],
         createFeature ''C'' [''B'']])))
   \<and> ''B'' \<notin> set (activeSet (initialScheduler 2
        [(createFeature ''A'' [])\<lparr>status := completed\<rparr>, createFeature ''B'' [''A''],
         createFeature ''C'' [''B'']]))
   \<and> \<not> eligible [(createFeature ''A'' [])\<lparr>status := completed\<rparr>, createFeature ''B'' [''A''],
         createFeature ''C'' [''B'']] [] (createFeature ''C'' [''B''])
   \<and> eligible [(createFeature ''A'' [])\<lparr>status := completed\<rparr>, createFeature ''B'' [''A''],
         createFeature ''C'' [''B'']] [] (createFeature ''B'' [''A''])
   \<and> ''C'' \<notin> set (activeSet (schedulingPass noFailures ((initialScheduler 2
        [(createFeature ''A'' [])\<lparr>status := completed\<rparr>, createFeature ''B'' [''A''],
         createFeature ''C'' [''B'']])\<lparr>enabled := True\<rparr>)))
   \<and> statusOf (store (schedulingPass noFailures ((initialScheduler 2
        [(createFeature ''A'' [])\<lparr>status := completed\<rparr>, createFeature ''B'' [''A''],
         createFeature ''C'' [''B'']])\<lparr>enabled := True\<rparr>))) ''C'' = Some backlog"
proof -
  let ?fs = "[(createFeature ''A'' [])\<lparr>status := completed\<rparr>, createFeature ''B'' [''A''],
         createFeature ''C'' [''B'']]"
  let ?sch = "initialScheduler 2 ?fs"
  let ?on = "?sch\<lparr>enabled := True\<rparr>"
  have h1: "''B'' \<in> set (activeSet (step noFailures Enable ?sch)) \<and> ''B'' \<notin> set (activeSet ?sch)"
    by code_simp
  have nC: "\<not> eligible ?fs [] (createFeature ''C'' [''B''])"
    by code_simp
  have eB: "eligible ?fs [] (createFeature ''B'' [''A''])"
    by code_simp
  have bB: "status (createFeature ''B'' [''A'']) = backlog \<and> fid (createFeature ''B'' [''A'']) \<notin> set []"
    by (simp add: createFeature_def)
  have h3: "distinct (map fid (store ?on)) \<and> createFeature ''C'' [''B''] \<in> set (store ?on)
      \<and> fid (createFeature ''C'' [''B'']) \<notin> set (activeSet ?on)
      \<and> \<not> eligible (store ?on) (activeSet ?on) (createFeature ''C'' [''B''])"
    using nC by (simp add: initialScheduler_def createFeature_def)
  have idC: "fid (createFeature ''C'' [''B'']) = ''C''" "status (createFeature ''C'' [''B'']) = backlog"
    by (simp_all add: createFeature_def)
  from dependency_ordering[where i="''B''" and env=noFailures and t=Enable and s="?sch"
      and f="createFeature ''B'' [''A'']" and active="[]" and fs="?fs"] bB eB
  have d: "\<forall>d \<in> set (depsOrEmpty (createFeature ''B'' [''A''])).
      statusOf ?fs d = Some completed \<or> statusOf ?fs d = Some verified"
    by blast
  from dependency_ordering[where i="''B''" and env=noFailures and t=Enable and s="?on"
      and f="createFeature ''C'' [''B'']" and active="[]" and fs="?fs"] h3
  have "fid (createFeature ''C'' [''B'']) \<notin> set (activeSet (schedulingPass noFailures ?on))
     \<and> statusOf (store (schedulingPass noFailures ?on)) (fid (createFeature ''C'' [''B'']))
          = Some (status (createFeature ''C'' [''B'']))"
    by blast
  with h1 nC eB show ?thesis unfolding idC by simp
qed


text \<open>
  Claim C6.  In a scheduling pass of an enabled scheduler over a store with unique ids,
  every feature picked for dispatch whose store update or runner start throws ends the pass
  in \<open>backlog\<close>, outside \<open>activeSet\<close>, with its error logged; every other picked feature
  ends the pass \<open>in_progress\<close> and in \<open>activeSet\<close>, also when a feature picked before it
  failed.
\<close>

theorem dispatch_error_reverts:
  assumes "distinct (map fid (store s))" and "enabled s" and "f \<in> set (selected s)"
  shows "(storeFails env (fid f) \<or> runnerFails env (fid f) \<longrightarrow>
            statusOf (store (schedulingPass env s)) (fid f) = Some backlog
            \<and> fid f \<notin> set (activeSet (schedulingPass env s))
            \<and> (\<exists>e. (fid f, e) \<in> set (errorLog (schedulingPass env s))))
       \<and> (\<not> (storeFails env (fid f) \<or> runnerFails env (fid f)) \<longrightarrow>
            statusOf (store (schedulingPass env s)) (fid f) = Some in_progress
            \<and> fid f \<in> set (activeSet (schedulingPass env s)))"
proof -
  have slots: "0 < availableSlots s"
  proof (rule ccontr)
    assume "\<not> 0 < availableSlots s"
    then have "selected s = []" by (simp add: selected_def)
    with assms(3) show False by simp
  qed
  have p: "schedulingPass env s = foldl (dispatch env) s (selected s)"
    using slots assms(2) by (simp add: schedulingPass_def)
  have a2: "\<forall>g \<in> set (selected s). fid g \<notin> set (activeSet s)"
    using selected_eligible by (auto simp: eligible_def)
  have a3: "\<forall>g \<in> set (selected s). statusOf (store s) (fid g) = Some backlog"
  proof
    fix g assume "g \<in> set (selected s)"
    then have "g \<in> set (store s)" "status g = backlog"
      using selected_eligible by (auto simp: eligible_def)
    with statusOf_member[OF assms(1)] show "statusOf (store s) (fid g) = Some backlog" by simp
  qed
  from foldl_dispatch_effect[OF distinct_selected[OF assms(1)] a2 a3, where j="fid f" and env=env] assms(3)
  show ?thesis unfolding p by (simp add: dispatchFails_def)
qed

theorem dispatch_error_reverts_witness:
  "statusOf (store (schedulingPass \<lparr> storeFails = (\<lambda>i. i = ''A''), runnerFails = (\<lambda>i. i = ''B'') \<rparr>
        ((initialScheduler 3 [backlogFeature ''A'' 1, backlogFeature ''B'' 2, backlogFeature ''C'' 3])
           \<lparr>enabled := True\<rparr>))) ''A'' = Some backlog
   \<and> ''A'' \<notin> set (activeSet (schedulingPass \<lparr> storeFails = (\<lambda>i. i = ''A''), runnerFails = (\<lambda>i. i = ''B'') \<rparr>
        ((initialScheduler 3 [backlogFeature ''A'' 1, backlogFeature ''B'' 2, backlogFeature ''C'' 3])
           \<lparr>enabled := True\<rparr>)))
   \<and> statusOf (store (schedulingPass \<lparr> storeFails = (\<lambda>i. i = ''A''), runnerFails = (\<lambda>i. i = ''B'') \<rparr>
        ((initialScheduler 3 [backlogFeature ''A'' 1, backlogFeature ''B'' 2, backlogFeature ''C'' 3])
           \<lparr>enabled := True\<rparr>))) ''B'' = Some backlog
   \<and> ''B'' \<notin> set (activeSet (schedulingPass \<lparr> storeFails = (\<lambda>i. i = ''A''), runnerFails = (\<lambda>i. i = ''B'') \<rparr>
        ((initialScheduler 3 [backlogFeature ''A'' 1, backlogFeature ''B'' 2, backlogFeature ''C'' 3])
           \<lparr>enabled := True\<rparr>)))
   \<and> statusOf (store (schedulingPass \<lparr> storeFails = (\<lambda>i. i = ''A''), runnerFails = (\<lambda>i. i = ''B'') \<rparr>
        ((initialScheduler 3 [backlogFeature ''A'' 1, backlogFeature ''B'' 2, backlogFeature ''C'' 3])
           \<lparr>enabled := True\<rparr>))) ''C'' = Some in_progress
   \<and> ''C'' \<in> set (activeSet (schedulingPass \<lparr> storeFails = (\<lambda>i. i = ''A''), runnerFails = (\<lambda>i. i = ''B'') \<rparr>
        ((initialScheduler 3 [backlogFeature ''A'' 1, backlogFeature ''B'' 2, backlogFeature ''C'' 3])
           \<lparr>enabled := True\<rparr>)))"
proof -
  let ?env = "\<lparr> storeFails = (\<lambda>i. i = ''A''), runnerFails = (\<lambda>i. i = ''B'') \<rparr>"
  let ?on = "(initialScheduler 3 [backlogFeature ''A'' 1, backlogFeature ''B'' 2, backlogFeature ''C'' 3])
           \<lparr>enabled := True\<rparr>"
  have sel: "selected ?on = [backlogFeature ''A'' 1, backlogFeature ''B'' 2, backlogFeature ''C'' 3]"
    by code_simp
  have d: "distinct (map fid (store ?on))" "enabled ?on"
    by (simp_all add: initialScheduler_def backlogFeature_def createFeature_def)
  have ids: "fid (backlogFeature ''A'' 1) = ''A''" "fid (backlogFeature ''B'' 2) = ''B''"
      "fid (backlogFeature ''C'' 3) = ''C''"
    by (simp_all add: backlogFeature_def createFeature_def)
  have a: "backlogFeature ''A'' 1 \<in> set (selected ?on)" unfolding sel by simp
  have b: "backlogFeature ''B'' 2 \<in> set (selected ?on)" unfolding sel by simp
  have c: "backlogFeature ''C'' 3 \<in> set (selected ?on)" unfolding sel by simp
  from dispatch_error_reverts[OF d a, of ?env] dispatch_error_reverts[OF d b, of ?env]
    dispatch_error_reverts[OF d c, of ?env]
  show ?thesis unfolding ids by simp
qed

section \<open>Scheduler: drain and refill\<close>

lemma insort_key_same_order:
  "(\<forall>y \<in> set ys. (k x \<le> k y) = (k' x \<le> k' y)) \<Longrightarrow> insort_key k x ys = insort_key k' x ys"
  by (induction ys) simp_all

lemma sort_key_same_order:
  "(\<forall>x \<in> set xs. \<forall>y \<in> set xs. (k x \<le> k y) = (k' x \<le> k' y)) \<Longrightarrow> sort_key k xs = sort_key k' xs"
proof (induction xs)
  case Nil
  then show ?case by simp
next
  case (Cons a xs)
  then have IH: "sort_key k xs = sort_key k' xs" by simp
  have "insort_key k a (sort_key k' xs) = insort_key k' a (sort_key k' xs)"
    using Cons.prems by (intro insort_key_same_order) simp
  with IH show ?case by (simp add: sort_key_simps)
qed

lemma sort_key_equal_priority:
  assumes "\<forall>f \<in> set fs. priority f = p"
  shows "sort_key (\<lambda>f. (priority f, createdAt f)) fs = sort_key createdAt fs"
  using assms by (intro sort_key_same_order) auto

lemma insort_key_map_preserving:
  "(\<forall>x. k (u x) = k x) \<Longrightarrow> insort_key k (u x) (map u ys) = map u (insort_key k x ys)"
  by (induction ys) simp_all

lemma sort_key_map_preserving:
  "(\<forall>x. k (u x) = k x) \<Longrightarrow> sort_key k (map u xs) = map u (sort_key k xs)"
  by (induction xs) (simp_all add: sort_key_simps insort_key_map_preserving)

lemma filter_append_split:
  "(\<forall>x \<in> set xs. \<not> P x) \<Longrightarrow> (\<forall>y \<in> set ys. P y) \<Longrightarrow> filter P (xs @ ys) = ys"
  by simp


lemma pass_stage:
  assumes d: "distinct (map fid fs)"
    and b: "\<forall>f \<in> set fs. status f = backlog \<and> depsOrEmpty f = [] \<and> priority f = p"
    and os: "sort_key createdAt fs = finished @ rest"
  shows "schedulingPass noFailures (stage fs finished []) = stage fs finished (take 1 rest)"
proof -
  let ?u = "\<lambda>f. f\<lparr>status := (if fid f \<in> fid ` set finished then waiting_approval else backlog)\<rparr>"
  let ?s1 = "stage fs finished []"
  let ?key = "\<lambda>f. (priority f, createdAt f)"
  let ?Q = "\<lambda>f. fid f \<notin> fid ` set finished"
  have st: "store ?s1 = map ?u fs" by (simp add: stage_def)
  have dos: "distinct (map fid (finished @ rest))"
    using d os[symmetric] by (simp only: distinct_map_sort_key)
  have el: "eligible (store ?s1) (activeSet ?s1) (?u f) \<longleftrightarrow> ?Q f" if "f \<in> set fs" for f
    using that b by (auto simp: eligible_def stage_def depsOrEmpty_def)
  have "filter (eligible (store ?s1) (activeSet ?s1)) (store ?s1)
        = map ?u (filter (eligible (store ?s1) (activeSet ?s1) \<circ> ?u) fs)"
    unfolding st by (simp add: filter_map)
  also have "filter (eligible (store ?s1) (activeSet ?s1) \<circ> ?u) fs = filter ?Q fs"
    by (rule filter_cong[OF refl]) (simp add: el)
  finally have f1: "filter (eligible (store ?s1) (activeSet ?s1)) (store ?s1) = map ?u (filter ?Q fs)" .
  have "sort_key ?key (filter ?Q fs) = filter ?Q (sort_key ?key fs)"
    by (simp add: filter_sort)
  also have "sort_key ?key fs = sort_key createdAt fs"
    using b by (intro sort_key_equal_priority[where p=p]) simp
  also have "filter ?Q (sort_key createdAt fs) = rest"
    unfolding os using dos by (intro filter_append_split) auto
  finally have f2: "sort_key ?key (filter ?Q fs) = rest" .
  have "sort_key ?key (map ?u (filter ?Q fs)) = map ?u (sort_key ?key (filter ?Q fs))"
    by (rule sort_key_map_preserving) simp
  with f1 f2 have sorted_sel: "sort_key ?key (filter (eligible (store ?s1) (activeSet ?s1)) (store ?s1))
      = map ?u rest" by simp
  have slots: "availableSlots ?s1 = 1" by (simp add: availableSlots_def stage_def)
  have sel: "selected ?s1 = map ?u (take 1 rest)"
    unfolding selected_def sorted_sel slots by (simp add: take_map)
  have en: "enabled ?s1" by (simp add: stage_def)
  have p: "schedulingPass noFailures ?s1 = foldl (dispatch noFailures) ?s1 (selected ?s1)"
    using slots en by (simp add: schedulingPass_def)
  show ?thesis
  proof (cases rest)
    case Nil
    then show ?thesis unfolding p sel by simp
  next
    case (Cons r todo)
    have rn: "fid r \<notin> fid ` set finished" using dos Cons by auto
    have up: "updateStatus (fid r) in_progress (store (stage fs finished []))
        = store (stage fs finished [r])"
      using rn by (simp add: updateStatus_def stage_def cong: if_cong)
    have "dispatch noFailures ?s1 (?u r) = stage fs finished [r]"
      using up by (simp add: dispatch_def noFailures_def stage_def)
    then show ?thesis
      unfolding p sel Cons by simp
  qed
qed


lemma runTriggers_append:
  "runTriggers (xs @ ys) s = runTriggers ys (runTriggers xs s)"
  by (induction xs arbitrary: s) auto

lemma enable_stage:
  assumes "\<forall>f \<in> set fs. status f = backlog \<and> depsOrEmpty f = [] \<and> priority f = p"
  shows "applyTrigger Enable (initialScheduler 1 fs) = Some (stage fs [] [])"
proof -
  have "map (\<lambda>f. f\<lparr>status := backlog\<rparr>) fs = fs"
    using assms by (induction fs) auto
  then show ?thesis by (simp add: initialScheduler_def stage_def)
qed

lemma success_stage:
  "applyTrigger (SessionSuccess (fid r)) (stage fs finished [r]) = Some (stage fs (finished @ [r]) [])"
proof -
  have "updateStatus (fid r) waiting_approval (store (stage fs finished [r]))
      = store (stage fs (finished @ [r]) [])"
    by (simp add: updateStatus_def stage_def cong: if_cong)
  then show ?thesis by (simp add: stage_def)
qed

lemma drain_stage:
  assumes d: "distinct (map fid fs)"
    and b: "\<forall>f \<in> set fs. status f = backlog \<and> depsOrEmpty f = [] \<and> priority f = p"
  shows "sort_key createdAt fs = finished @ rest \<Longrightarrow>
     runTriggers ((noFailures, Enable) # map (\<lambda>f. (noFailures, SessionSuccess (fid f))) finished)
        (initialScheduler 1 fs) = stage fs finished (take 1 rest)"
proof (induction finished arbitrary: rest rule: rev_induct)
  case Nil
  then show ?case
    using pass_stage[OF d b, of "[]" rest] enable_stage[OF b]
    by (simp add: step_def del: applyTrigger.simps)
next
  case (snoc r finished)
  then have os: "sort_key createdAt fs = finished @ r # rest" by simp
  from snoc.IH[OF os]
  have IH: "runTriggers ((noFailures, Enable) # map (\<lambda>f. (noFailures, SessionSuccess (fid f))) finished)
        (initialScheduler 1 fs) = stage fs finished [r]" by simp
  have "step noFailures (SessionSuccess (fid r)) (stage fs finished [r])
      = stage fs (finished @ [r]) (take 1 rest)"
    using pass_stage[OF d b, of "finished @ [r]" rest] snoc.prems
    by (simp add: step_def success_stage del: applyTrigger.simps)
  with IH show ?case
    using runTriggers_append[of "(noFailures, Enable) # map (\<lambda>f. (noFailures, SessionSuccess (fid f))) finished"
        "[(noFailures, SessionSuccess (fid r))]" "initialScheduler 1 fs"]
    by simp
qed

lemma filter_fid_le_one:
  "distinct (map fid fs) \<Longrightarrow> length (filter (\<lambda>f. fid f \<in> fid ` set (take 1 rest)) fs) \<le> 1"
proof (cases rest)
  case Nil
  then show ?thesis by simp
next
  case (Cons r todo)
  assume d: "distinct (map fid fs)"
  have "length (filter (\<lambda>f. fid f = i) fs) \<le> 1" for i
    using d
  proof (induction fs)
    case Nil
    then show ?case by simp
  next
    case (Cons a fs)
    show ?case
    proof (cases "fid a = i")
      case True
      from Cons.prems have "fid a \<notin> fid ` set fs" by simp
      with True have "filter (\<lambda>f. fid f = i) fs = []"
        unfolding filter_empty_conv by (metis imageI)
      with True show ?thesis by simp
    next
      case False
      with Cons show ?thesis by simp
    qed
  qed
  from this[of "fid r"] Cons show ?thesis by simp
qed


text \<open>
  Claim C7.  Take any store of backlog features with unique ids, no dependencies and one
  common priority (five of them in the claim), limit 1, collaborators that do not fail,
  and split the features in creation order into those \<open>finished\<close> and the \<open>rest\<close>.  After
  auto-mode is enabled and the sessions of the finished features have succeeded one after
  the other, the finished features are in \<open>waiting_approval\<close>, the first of the rest is the
  one feature in progress and the one active session, and the others are still in
  \<open>backlog\<close>; when nothing is left, every feature is in \<open>waiting_approval\<close> and no session
  is active.  So the only session that can end is that of the oldest unfinished feature:
  the features are started and completed one at a time, in creation order, and at most one
  is \<open>in_progress\<close> in every state passed through.
\<close>

theorem drain_and_refill:
  assumes "distinct (map fid fs)"
    and "\<forall>f \<in> set fs. status f = backlog \<and> depsOrEmpty f = [] \<and> priority f = p"
    and "sort_key createdAt fs = finished @ rest"
  shows "runTriggers ((noFailures, Enable) # map (\<lambda>f. (noFailures, SessionSuccess (fid f))) finished)
           (initialScheduler 1 fs)
         = \<lparr> enabled = True, concurrencyLimit = 1, activeSet = map fid (take 1 rest),
             store = map (\<lambda>f. f\<lparr>status :=
                       (if fid f \<in> fid ` set finished then waiting_approval
                        else if fid f \<in> fid ` set (take 1 rest) then in_progress else backlog)\<rparr>) fs,
             errorLog = [] \<rparr>
       \<and> length (filter (\<lambda>f. status f = in_progress)
            (store (runTriggers ((noFailures, Enable) # map (\<lambda>f. (noFailures, SessionSuccess (fid f))) finished)
               (initialScheduler 1 fs)))) \<le> 1"
proof -
  note r = drain_stage[OF assms]
  have "length (filter (\<lambda>f. status f = in_progress) (store (stage fs finished (take 1 rest))))
      \<le> length (filter (\<lambda>f. fid f \<in> fid ` set (take 1 rest)) fs)"
  proof -
    have "filter (\<lambda>f. status f = in_progress) (store (stage fs finished (take 1 rest)))
        = map (\<lambda>f. f\<lparr>status := in_progress\<rparr>)
            (filter (\<lambda>f. fid f \<notin> fid ` set finished \<and> fid f \<in> fid ` set (take 1 rest)) fs)"
      by (induction fs) (auto simp: stage_def)
    moreover have "length (filter (\<lambda>f. fid f \<notin> fid ` set finished \<and> fid f \<in> fid ` set (take 1 rest)) fs)
        \<le> length (filter (\<lambda>f. fid f \<in> fid ` set (take 1 rest)) fs)"
      by (induction fs) auto
    ultimately show ?thesis by simp
  qed
  with filter_fid_le_one[OF assms(1), of rest] r show ?thesis
    by (simp add: stage_def)
qed


theorem drain_and_refill_witness:
  "sort_key createdAt [backlogFeature ''C'' 3, backlogFeature ''A'' 1, backlogFeature ''E'' 5,
        backlogFeature ''B'' 2, backlogFeature ''D'' 4]
     = [backlogFeature ''A'' 1, backlogFeature ''B'' 2, backlogFeature ''C'' 3,
        backlogFeature ''D'' 4, backlogFeature ''E'' 5]
   \<and> activeSet (runTriggers [(noFailures, Enable), (noFailures, SessionSuccess ''A''),
          (noFailures, SessionSuccess ''B'')]
        (initialScheduler 1 [backlogFeature ''C'' 3, backlogFeature ''A'' 1, backlogFeature ''E'' 5,
           backlogFeature ''B'' 2, backlogFeature ''D'' 4])) = [''C'']
   \<and> map status (store (runTriggers [(noFailures, Enable), (noFailures, SessionSuccess ''A''),
          (noFailures, SessionSuccess ''B'')]
        (initialScheduler 1 [backlogFeature ''C'' 3, backlogFeature ''A'' 1, backlogFeature ''E'' 5,
           backlogFeature ''B'' 2, backlogFeature ''D'' 4])))
       = [in_progress, waiting_approval, backlog, waiting_approval, backlog]
   \<and> activeSet (runTriggers [(noFailures, Enable), (noFailures, SessionSuccess ''A''),
          (noFailures, SessionSuccess ''B''), (noFailures, SessionSuccess ''C''),
          (noFailures, SessionSuccess ''D''), (noFailures, SessionSuccess ''E'')]
        (initialScheduler 1 [backlogFeature ''C'' 3, backlogFeature ''A'' 1, backlogFeature ''E'' 5,
           backlogFeature ''B'' 2, backlogFeature ''D'' 4])) = []
   \<and> map status (store (runTriggers [(noFailures, Enable), (noFailures, SessionSuccess ''A''),
          (noFailures, SessionSuccess ''B''), (noFailures, SessionSuccess ''C''),
          (noFailures, SessionSuccess ''D''), (noFailures, SessionSuccess ''E'')]
        (initialScheduler 1 [backlogFeature ''C'' 3, backlogFeature ''A'' 1, backlogFeature ''E'' 5,
           backlogFeature ''B'' 2, backlogFeature ''D'' 4])))
       = [waiting_approval, waiting_approval, waiting_approval, waiting_approval, waiting_approval]"
proof -
  let ?fs = "[backlogFeature ''C'' 3, backlogFeature ''A'' 1, backlogFeature ''E'' 5,
        backlogFeature ''B'' 2, backlogFeature ''D'' 4]"
  let ?two = "[backlogFeature ''A'' 1, backlogFeature ''B'' 2]"
  let ?three = "[backlogFeature ''C'' 3, backlogFeature ''D'' 4, backlogFeature ''E'' 5]"
  have d: "distinct (map fid ?fs)"
    by (simp add: backlogFeature_def createFeature_def)
  have b: "\<forall>f \<in> set ?fs. status f = backlog \<and> depsOrEmpty f = [] \<and> priority f = 2"
    by (simp add: backlogFeature_def createFeature_def depsOrEmpty_def)
  have os: "sort_key createdAt ?fs = ?two @ ?three"
    by (simp add: backlogFeature_def createFeature_def)
  have os': "sort_key createdAt ?fs = (?two @ ?three) @ []"
    using os by simp
  from drain_and_refill[OF d b os, THEN conjunct1] drain_and_refill[OF d b os', THEN conjunct1] os
  show ?thesis
    by (simp add: backlogFeature_def createFeature_def)
qed

end
